theory Spec2Isabelle
  imports Main "HOL-Library.Multiset"
begin

section \<open>JavaScript strings\<close>

text \<open>
  A JavaScript string is a sequence of UTF-16 code units. The embedding keeps the code
  units 0..255 (ASCII and the Latin-1 supplement) as the 8-bit \<^typ>\<open>char\<close>, so that
  \<^term>\<open>length\<close> is \<open>String.prototype.length\<close>. On this range the functions below
  are exactly the ECMAScript ones: \<open>trim\<close> strips the WhiteSpace and LineTerminator code
  units (TAB, LF, VT, FF, CR, SP, NBSP), and \<open>toLowerCase\<close> maps A-Z and the capital
  letters U+00C0..U+00DE (U+00D7, the multiplication sign, excepted) 32 places up.
\<close>

definition is_whitespace :: "char \<Rightarrow> bool" where
  "is_whitespace c = ((of_char c :: nat) \<in> {9, 10, 11, 12, 13, 32, 160})"

definition trim :: "string \<Rightarrow> string" where
  "trim s = rev (dropWhile is_whitespace (rev (dropWhile is_whitespace s)))"

definition is_upper :: "char \<Rightarrow> bool" where
  "is_upper c =
     (let n = (of_char c :: nat)
      in (65 \<le> n \<and> n \<le> 90) \<or> (192 \<le> n \<and> n \<le> 222 \<and> n \<noteq> 215))"

definition toLowerChar :: "char \<Rightarrow> char" where
  "toLowerChar c = (if is_upper c then char_of ((of_char c :: nat) + 32) else c)"

definition toLowerCase :: "string \<Rightarrow> string" where
  "toLowerCase s = map toLowerChar s"

definition startsWith :: "string \<Rightarrow> string \<Rightarrow> bool" where
  "startsWith s p = (take (length p) s = p)"

definition endsWith :: "string \<Rightarrow> string \<Rightarrow> bool" where
  "endsWith s p = (length p \<le> length s \<and> drop (length s - length p) s = p)"

text \<open>
  \<open>s.split(sep)\<close> for a one-character separator: always at least one piece,
  \<open>''''.split(sep)\<close> is the list holding the empty string.
\<close>

fun split :: "char \<Rightarrow> string \<Rightarrow> string list" where
  "split sep [] = [[]]"
| "split sep (c # cs) =
     (if c = sep then [] # split sep cs
      else (case split sep cs of
              [] \<Rightarrow> [[c]]
            | piece # pieces \<Rightarrow> (c # piece) # pieces))"

definition LF :: char where
  "LF = CHR 0x0A"

section \<open>JavaScript values\<close>

text \<open>
  The values a parsed JSON body is made of; a string value of the program is a
  \<open>JStr\<close>. A number keeps mantissa and decimal exponent; no code path looks at it.
  The two collections below are JavaScript \<open>Set\<close>s: on strings their membership test is
  equality of the code units.
\<close>

datatype json =
    JNull
  | JBool bool
  | JNum int int
  | JStr string
  | JArr "json list"
  | JObj "(string \<times> json) list"

section \<open>The TLD list generator (src/fetch/tlds.ts)\<close>

definition MAX_TLD_LENGTH :: nat where
  "MAX_TLD_LENGTH = 63"

text \<open>
  \<open>TLD_VALIDATION_REGEX = /^[a-z0-9-]+$/i\<close>. Without the \<open>u\<close> flag the
  case-insensitive match never maps a code unit above 127 to an ASCII one, so the class
  is exactly the ASCII letters, the digits and the hyphen.
\<close>

definition tld_char :: "char \<Rightarrow> bool" where
  "tld_char c =
     (let n = (of_char c :: nat)
      in (97 \<le> n \<and> n \<le> 122) \<or> (65 \<le> n \<and> n \<le> 90) \<or> (48 \<le> n \<and> n \<le> 57) \<or> n = 45)"

definition TLD_VALIDATION_REGEX_test :: "string \<Rightarrow> bool" where
  "TLD_VALIDATION_REGEX_test s = (s \<noteq> [] \<and> list_all tld_char s)"

definition isValidTld :: "string \<Rightarrow> bool" where
  "isValidTld tld =
     (length tld > 0 \<and>
      length tld \<le> MAX_TLD_LENGTH \<and>
      TLD_VALIDATION_REGEX_test tld \<and>
      \<not> startsWith tld ''-'' \<and>
      \<not> endsWith tld ''-'')"

text \<open>
  \<open>Array.prototype.sort\<close> with the comparator \<open>(a, b) => a.localeCompare(b)\<close>.
  The collation of \<open>localeCompare\<close> belongs to the host, so it is a parameter; the sort
  is stable, as an insertion sort is.
\<close>

fun insert_by :: "('a \<Rightarrow> 'a \<Rightarrow> int) \<Rightarrow> 'a \<Rightarrow> 'a list \<Rightarrow> 'a list" where
  "insert_by cmp x [] = [x]"
| "insert_by cmp x (y # ys) =
     (if cmp x y \<le> 0 then x # y # ys else y # insert_by cmp x ys)"

fun sort_by :: "('a \<Rightarrow> 'a \<Rightarrow> int) \<Rightarrow> 'a list \<Rightarrow> 'a list" where
  "sort_by cmp [] = []"
| "sort_by cmp (x # xs) = insert_by cmp x (sort_by cmp xs)"

datatype tld_error = NoValidTlds

text \<open>
  \<open>processTlds\<close>, up to the two files it writes: the result is the array literal
  \<open>tldArray\<close> of the generated module (every entry lowercased by
  \<open>generateTsFileContent\<close>), or the error thrown when nothing survives validation.
\<close>

definition validTlds :: "(string \<Rightarrow> string \<Rightarrow> int) \<Rightarrow> string list \<Rightarrow> string list" where
  "validTlds localeCompare tlds =
     sort_by localeCompare
       (filter isValidTld
         (filter (\<lambda>tld. tld \<noteq> [] \<and> \<not> startsWith tld ''#'')
           (map trim tlds)))"

definition processTlds ::
  "(string \<Rightarrow> string \<Rightarrow> int) \<Rightarrow> string list \<Rightarrow> tld_error + string list" where
  "processTlds localeCompare tlds =
     (let valid = validTlds localeCompare tlds
      in if length valid = 0 then Inl NoValidTlds
         else Inr (map toLowerCase valid))"

text \<open>
  The generated module: \<open>tldSet = new Set(tldArray)\<close> and
  \<open>isValidTld(domain) = tldSet.has(domain.toLowerCase())\<close>.
\<close>

definition isValidTld_generated :: "string list \<Rightarrow> string \<Rightarrow> bool" where
  "isValidTld_generated tldArray domain = (toLowerCase domain \<in> set tldArray)"

section \<open>Reconciliation (src/fetch/domains.ts)\<close>

text \<open>
  The two module-level collections. \<open>processDomains\<close> is declared on \<open>string[]\<close>; the
  element type is left open because the structured fetch path hands it whatever the
  response array holds.
\<close>

record 'a collections =
  allowlistSet :: "'a set"
  disposables :: "'a set"

definition no_domains :: "'a collections" where
  "no_domains = \<lparr>allowlistSet = {}, disposables = {}\<rparr>"

text \<open>
  \<open>validateDomain\<close> lives in ../utils/validate-domain, outside the files at hand: it is
  the parameter \<open>validateDomain\<close> throughout.
\<close>

definition processDomain :: "('a \<Rightarrow> bool) \<Rightarrow> bool \<Rightarrow> 'a \<Rightarrow> 'a collections \<Rightarrow> 'a collections" where
  "processDomain validateDomain isAllowlist domain s =
     (if validateDomain domain then
        (if isAllowlist then s\<lparr>allowlistSet := insert domain (allowlistSet s)\<rparr>
         else if domain \<notin> allowlistSet s then s\<lparr>disposables := insert domain (disposables s)\<rparr>
         else s)
      else s)"

definition processDomains ::
  "('a \<Rightarrow> bool) \<Rightarrow> 'a list \<Rightarrow> bool \<Rightarrow> 'a collections \<Rightarrow> 'a collections" where
  "processDomains validateDomain domains isAllowlist s =
     fold (processDomain validateDomain isAllowlist) domains s"

text \<open>
  The first block of \<open>fetchDomains\<close>: the local allowlist file. \<open>None\<close> is the file
  that does not exist or cannot be read (the \<open>catch\<close> only logs).
\<close>

definition allowlistLines :: "string \<Rightarrow> string list" where
  "allowlistLines allowlistContent =
     map (\<lambda>line. toLowerCase (trim line))
       (filter (\<lambda>line. trim line \<noteq> [] \<and> \<not> startsWith line ''#'')
         (split LF allowlistContent))"

definition loadLocalAllowlist :: "string option \<Rightarrow> json collections \<Rightarrow> json collections" where
  "loadLocalAllowlist file s =
     (case file of
        None \<Rightarrow> s
      | Some allowlistContent \<Rightarrow>
          fold (\<lambda>domain s. s\<lparr>allowlistSet := insert (JStr domain) (allowlistSet s)\<rparr>)
            (allowlistLines allowlistContent) s)"

section \<open>The source fetcher (src/fetch/domains.ts, fetchData)\<close>

datatype fetch_error =
    TransportError string
  | HttpError nat string
  | BodyError string
  | TypeError string

text \<open>
  What the network gives for one URL: \<open>fetch(url)\<close> rejects (\<open>Inl\<close>), or resolves
  with a response. \<open>json_result\<close> and \<open>text_result\<close> are what \<open>response.json()\<close> and
  \<open>response.text()\<close> settle with; \<open>Inl\<close> is a rejection (a body that is not JSON, a
  broken stream).
\<close>

record response =
  ok :: bool
  status :: nat
  statusText :: string
  json_result :: "string + json"
  text_result :: "string + string"

type_synonym fetched = "string + response"

text \<open>
  \<open>json[key]\<close>. An array index is the canonical decimal string of a number below the
  length. \<open>None\<close> stands for \<open>undefined\<close> and for the inherited properties (methods,
  \<open>Object.prototype\<close>), none of which is an array; \<open>__proto__\<close> of an array is
  \<open>Array.prototype\<close>, an empty array. Reading a property of \<open>null\<close> throws.
\<close>

definition is_digit :: "char \<Rightarrow> bool" where
  "is_digit c = (48 \<le> (of_char c :: nat) \<and> (of_char c :: nat) \<le> 57)"

definition array_index :: "string \<Rightarrow> nat option" where
  "array_index key =
     (if key = [] \<or> \<not> list_all is_digit key \<or> (length key > 1 \<and> hd key = CHR ''0'')
      then None
      else Some (fold (\<lambda>c n. 10 * n + ((of_char c :: nat) - 48)) key 0))"

fun member :: "json \<Rightarrow> string \<Rightarrow> fetch_error + json option" where
  "member JNull key = Inl (TypeError ''Cannot read properties of null'')"
| "member (JObj props) key = Inr (map_of (rev props) key)"
| "member (JArr items) key =
     Inr (case array_index key of
            Some i \<Rightarrow> (if i < length items then Some (items ! i) else None)
          | None \<Rightarrow>
              (if key = ''length'' then Some (JNum (int (length items)) 0)
               else if key = ''__proto__'' then Some (JArr [])
               else None))"
| "member (JStr s) key =
     Inr (case array_index key of
            Some i \<Rightarrow> (if i < length s then Some (JStr [s ! i]) else None)
          | None \<Rightarrow> (if key = ''length'' then Some (JNum (int (length s)) 0) else None))"
| "member (JBool b) key = Inr None"
| "member (JNum m e) key = Inr None"

text \<open>\<open>Array.isArray(data) ? data : []\<close>\<close>

fun array_or_empty :: "json option \<Rightarrow> json list" where
  "array_or_empty (Some (JArr items)) = items"
| "array_or_empty _ = []"

text \<open>\<open>parts[col]\<close>: \<open>undefined\<close> outside the array (and for a negative index).\<close>

definition at_index :: "'a list \<Rightarrow> int \<Rightarrow> 'a option" where
  "at_index xs i = (if 0 \<le> i \<and> nat i < length xs then Some (xs ! nat i) else None)"

definition csv_cell :: "int \<Rightarrow> string \<Rightarrow> string" where
  "csv_cell col line =
     (let parts = split (CHR '','') line
      in case at_index parts col of
           None \<Rightarrow> []
         | Some part \<Rightarrow> filter (\<lambda>c. c \<noteq> CHR 0x22) (toLowerCase (trim part)))"

definition keep_line :: "string \<Rightarrow> bool" where
  "keep_line line = (line \<noteq> [] \<and> \<not> startsWith line ''#'')"

text \<open>The \<open>try\<close> block of \<open>fetchData\<close>; every \<open>throw\<close> and rejection is an \<open>Inl\<close>.\<close>

definition fetchData_try :: "fetched \<Rightarrow> string option \<Rightarrow> int option \<Rightarrow> fetch_error + json list" where
  "fetchData_try net key col =
     (case net of
        Inl msg \<Rightarrow> Inl (TransportError msg)
      | Inr response \<Rightarrow>
          if \<not> ok response then Inl (HttpError (status response) (statusText response))
          else
            (case key of
               Some k \<Rightarrow>
                 (case json_result response of
                    Inl msg \<Rightarrow> Inl (BodyError msg)
                  | Inr json \<Rightarrow>
                      (case (if k = ''.'' then Inr (Some json) else member json k) of
                         Inl e \<Rightarrow> Inl e
                       | Inr data \<Rightarrow> Inr (array_or_empty data)))
             | None \<Rightarrow>
                 (case text_result response of
                    Inl msg \<Rightarrow> Inl (BodyError msg)
                  | Inr textData \<Rightarrow>
                      (case col of
                         Some c \<Rightarrow>
                           Inr (map JStr (filter keep_line
                                  (map (csv_cell c) (split LF textData))))
                       | None \<Rightarrow>
                           Inr (map JStr (filter keep_line
                                  (map (\<lambda>line. toLowerCase (trim line)) (split LF textData))))))))"

text \<open>
  \<open>fetchData\<close>: the lines written by \<open>console.error\<close> (the URL and the error) and the
  returned array.
\<close>

definition fetchData ::
  "string \<Rightarrow> fetched \<Rightarrow> string option \<Rightarrow> int option \<Rightarrow> (string \<times> fetch_error) list \<times> json list" where
  "fetchData url net key col =
     (case fetchData_try net key col of
        Inl error \<Rightarrow> ([(url, error)], [])
      | Inr domains \<Rightarrow> ([], domains))"

section \<open>The concurrency limiter (src/fetch/domains.ts, throttlePromises)\<close>

text \<open>
  A task is a deferred operation that settles successfully: the value its promise
  resolves with, and what its continuation does to the state shared by the tasks at the
  moment it settles.
\<close>

type_synonym ('r, 's) task = "'r \<times> ('s \<Rightarrow> 's)"

text \<open>
  The scheduler is cooperative: \<open>throttlePromises\<close> runs until it awaits, and a
  \<open>then\<close> callback runs only while it is suspended. \<open>pc\<close> is where the function
  stands: in the \<open>for\<close> loop, suspended on \<open>Promise.race\<close> (\<open>Resuming\<close> once the race
  has resolved and the continuation is queued), suspended on \<open>Promise.all\<close>, or returned.
  \<open>nxt\<close> is the index of the next task of the iteration, \<open>executing\<close> holds the
  promises \<open>p\<close> by the index of their task, in the order of the array, and
  \<open>awaited\<close> is the array as it was when it was last handed to \<open>Promise.race\<close> or
  \<open>Promise.all\<close>. \<open>settled\<close> is not a variable of the program: it records which
  tasks have settled.
\<close>

datatype phase = Loop | AwaitRace | Resuming | AwaitAll | Returned

record ('r, 's) throttle =
  pc :: phase
  nxt :: nat
  executing :: "nat list"
  awaited :: "nat list"
  results :: "'r list"
  settled :: "nat set"
  shared :: 's

definition start :: "'s \<Rightarrow> ('r, 's) throttle" where
  "start sh =
     \<lparr>pc = Loop, nxt = 0, executing = [], awaited = [], results = [], settled = {},
      shared = sh\<rparr>"

text \<open>The tasks that are unresolved: called and not yet settled, in the order of their
  calls.\<close>

definition unresolved :: "('r, 's) throttle \<Rightarrow> nat list" where
  "unresolved s = filter (\<lambda>k. k \<notin> settled s) [0..<nxt s]"

text \<open>\<open>indexOf\<close> is -1 for an absent element, and \<open>splice(i, 1)\<close> counts a negative
  \<open>i\<close> from the end.\<close>

fun indexOf :: "'a list \<Rightarrow> 'a \<Rightarrow> int" where
  "indexOf [] x = - 1"
| "indexOf (y # ys) x =
     (if y = x then 0 else (let i = indexOf ys x in if i < 0 then - 1 else i + 1))"

definition splice1 :: "'a list \<Rightarrow> int \<Rightarrow> 'a list" where
  "splice1 xs i =
     (let len = int (length xs);
          from = nat (if i < 0 then max (len + i) 0 else min i len)
      in take from xs @ drop (from + 1) xs)"

datatype event = Call | Exit | Settle nat | Resume | Return

text \<open>
  One step of an execution, \<open>None\<close> when the event cannot happen in the state.
  \<open>Call\<close>: one pass of the loop body, \<open>task()\<close>, \<open>executing.push(p)\<close> and the test
  \<open>executing.length >= limit\<close>. \<open>Exit\<close>: the loop is over, \<open>Promise.all(executing)\<close>
  is awaited. \<open>Settle k\<close>: the unresolved task \<open>k\<close> settles and the callback of its
  \<open>p\<close> runs, which resolves \<open>p\<close> and with it a pending race \<open>p\<close> was handed to.
  \<open>Resume\<close>: the continuation of the resolved race runs. \<open>Return\<close>: every promise
  handed to \<open>Promise.all\<close> has resolved.
\<close>

definition apply_event ::
  "nat \<Rightarrow> ('r, 's) task list \<Rightarrow> event \<Rightarrow> ('r, 's) throttle \<Rightarrow> ('r, 's) throttle option" where
  "apply_event limit tasks e s =
     (case e of
        Call \<Rightarrow>
          if pc s = Loop \<and> nxt s < length tasks then
            (let executing' = executing s @ [nxt s]
             in Some (if length executing' \<ge> limit
                      then s\<lparr>executing := executing', nxt := nxt s + 1,
                             pc := AwaitRace, awaited := executing'\<rparr>
                      else s\<lparr>executing := executing', nxt := nxt s + 1\<rparr>))
          else None
      | Exit \<Rightarrow>
          if pc s = Loop \<and> nxt s = length tasks
          then Some (s\<lparr>pc := AwaitAll, awaited := executing s\<rparr>)
          else None
      | Settle k \<Rightarrow>
          if pc s \<in> {AwaitRace, Resuming, AwaitAll} \<and> k \<in> set (unresolved s) then
            Some (s\<lparr>results := results s @ [fst (tasks ! k)],
                    executing := splice1 (executing s) (indexOf (executing s) k),
                    settled := insert k (settled s),
                    shared := snd (tasks ! k) (shared s),
                    pc := (if pc s = AwaitRace \<and> k \<in> set (awaited s) then Resuming
                           else pc s)\<rparr>)
          else None
      | Resume \<Rightarrow>
          if pc s = Resuming then Some (s\<lparr>pc := Loop\<rparr>) else None
      | Return \<Rightarrow>
          if pc s = AwaitAll \<and> list_all (\<lambda>k. k \<in> settled s) (awaited s)
          then Some (s\<lparr>pc := Returned\<rparr>)
          else None)"

fun exec ::
  "nat \<Rightarrow> ('r, 's) task list \<Rightarrow> event list \<Rightarrow> ('r, 's) throttle \<Rightarrow> ('r, 's) throttle option" where
  "exec limit tasks [] s = Some s"
| "exec limit tasks (e # es) s =
     (case apply_event limit tasks e s of
        None \<Rightarrow> None
      | Some s' \<Rightarrow> exec limit tasks es s')"

text \<open>A bound on the number of steps an execution still has.\<close>

fun phase_rank :: "phase \<Rightarrow> nat" where
  "phase_rank Returned = 0"
| "phase_rank AwaitAll = 1"
| "phase_rank Loop = 2"
| "phase_rank AwaitRace = 3"
| "phase_rank Resuming = 3"

definition steps_left :: "('r, 's) task list \<Rightarrow> ('r, 's) throttle \<Rightarrow> nat" where
  "steps_left tasks s =
     4 * (length tasks - nxt s) + 2 * length (executing s) + phase_rank (pc s)"

text \<open>
  A schedule that always settles the oldest promise: the events from a state to the
  return, \<open>fuel\<close> bounding their number.
\<close>

fun oldest_first :: "nat \<Rightarrow> nat \<Rightarrow> ('r, 's) task list \<Rightarrow> ('r, 's) throttle \<Rightarrow> event list option" where
  "oldest_first 0 limit tasks s = (if pc s = Returned then Some [] else None)"
| "oldest_first (Suc fuel) limit tasks s =
     (if pc s = Returned then Some []
      else
        (let e = (case pc s of
                    Loop \<Rightarrow> (if nxt s < length tasks then Call else Exit)
                  | AwaitRace \<Rightarrow> Settle (hd (unresolved s))
                  | Resuming \<Rightarrow> Resume
                  | AwaitAll \<Rightarrow> (if unresolved s = [] then Return else Settle (hd (unresolved s)))
                  | Returned \<Rightarrow> Return)
         in case apply_event limit tasks e s of
              None \<Rightarrow> None
            | Some s' \<Rightarrow> map_option ((#) e) (oldest_first fuel limit tasks s')))"

text \<open>
  What holds of every state an execution reaches: the loop never runs past the tasks,
  only called tasks have settled, \<open>executing\<close> holds exactly the promises of the
  unresolved tasks, at most \<open>limit\<close> of them (fewer while the loop runs), a pending race
  or \<open>Promise.all\<close> was handed every promise still in \<open>executing\<close>, and the results
  recorded so far together with those still to come are the results of the tasks called
  so far.
\<close>

definition throttle_inv :: "nat \<Rightarrow> ('r, 's) task list \<Rightarrow> ('r, 's) throttle \<Rightarrow> bool" where
  "throttle_inv limit tasks s =
     (nxt s \<le> length tasks \<and>
      (\<forall>k \<in> settled s. k < nxt s) \<and>
      executing s = unresolved s \<and>
      length (executing s) \<le> limit \<and>
      (pc s = Loop \<or> pc s = Resuming \<longrightarrow> length (executing s) < limit) \<and>
      (pc s = AwaitRace \<longrightarrow> executing s \<noteq> [] \<and> awaited s = executing s) \<and>
      (pc s = AwaitAll \<longrightarrow> set (executing s) \<subseteq> set (awaited s) \<and>
                          (\<forall>k \<in> set (awaited s). k < nxt s)) \<and>
      (pc s = AwaitAll \<or> pc s = Returned \<longrightarrow> nxt s = length tasks) \<and>
      (pc s = Returned \<longrightarrow> executing s = []) \<and>
      mset (results s) + mset (map (\<lambda>k. fst (tasks ! k)) (executing s)) =
        mset (map fst (take (nxt s) tasks)))"

text \<open>Two tasks that count themselves in the shared state when they settle.\<close>

definition twoTasks :: "(string, nat) task list" where
  "twoTasks = [(''a'', Suc), (''b'', Suc)]"

section \<open>The aggregation driver (src/fetch/domains.ts, fetchDomains and main)\<close>

definition MAX_CONCURRENT_REQUESTS :: nat where
  "MAX_CONCURRENT_REQUESTS = 5"

text \<open>
  One fetch task: \<open>fetchData\<close>, then \<open>processDomains\<close> on what it returned; the task
  resolves with \<open>domains.length\<close>.
\<close>

definition fetchTask ::
  "(json \<Rightarrow> bool) \<Rightarrow> bool \<Rightarrow> string \<Rightarrow> fetched \<Rightarrow> string option \<Rightarrow> int option
     \<Rightarrow> (nat, json collections) task" where
  "fetchTask validateDomain isAllowlist url net key col =
     (let domains = snd (fetchData url net key col)
      in (length domains, processDomains validateDomain domains isAllowlist))"

text \<open>
  The source lists of ./aggregate-domains are parameters, each URL paired with what the
  network gives for it during the run.
\<close>

definition fetchTasks ::
  "(json \<Rightarrow> bool) \<Rightarrow> (string \<times> fetched) list \<Rightarrow> (string \<times> fetched) list
     \<Rightarrow> ((string \<times> string) \<times> fetched) list \<Rightarrow> ((string \<times> int) \<times> fetched) list
     \<Rightarrow> (nat, json collections) task list" where
  "fetchTasks validateDomain allowlist_txt blacklists_txt blacklists_json blacklists_csv =
     map (\<lambda>(url, net). fetchTask validateDomain True url net None None) allowlist_txt @
     map (\<lambda>(url, net). fetchTask validateDomain False url net None None) blacklists_txt @
     map (\<lambda>((url, key), net). fetchTask validateDomain False url net (Some key) None) blacklists_json @
     map (\<lambda>((url, col), net). fetchTask validateDomain False url net None (Some col)) blacklists_csv"

text \<open>
  \<open>main\<close>: the local allowlist is loaded, the tasks run under the limiter, and once
  \<open>throttlePromises\<close> has returned the two collections, as they stand, are handed to
  \<open>addToDisposableList\<close> and \<open>addToAllowlist\<close>.
\<close>

definition main_start :: "string option \<Rightarrow> (nat, json collections) throttle" where
  "main_start file = start (loadLocalAllowlist file no_domains)"

definition published_disposables :: "(nat, json collections) throttle \<Rightarrow> json set" where
  "published_disposables s = disposables (shared s)"

definition published_allowlist :: "(nat, json collections) throttle \<Rightarrow> json set" where
  "published_allowlist s = allowlistSet (shared s)"

subsection \<open>Responses used below\<close>

text \<open>A gateway error, a 200 whose body can be read neither as JSON nor as text, and a
  200 whose body is the JSON \<open>null\<close>.\<close>

definition badGateway :: response where
  "badGateway = \<lparr>ok = False, status = 502, statusText = ''Bad Gateway'',
     json_result = Inl ''Unexpected token <'', text_result = Inr ''<html>''\<rparr>"
definition notJson :: response where
  "notJson = \<lparr>ok = True, status = 200, statusText = ''OK'',
     json_result = Inl ''Unexpected token <'', text_result = Inl ''terminated''\<rparr>"

definition nullBody :: response where
  "nullBody = \<lparr>ok = True, status = 200, statusText = ''OK'',
     json_result = Inr JNull, text_result = Inr ''null''\<rparr>"

text \<open>
  One domain, \<open>Example.COM\<close>, as a plain list, as a delimited list with the domain in
  column 0, and as a JSON array.
\<close>

definition plainSource :: response where
  "plainSource = \<lparr>ok = True, status = 200, statusText = ''OK'',
     json_result = Inl ''Unexpected token E'', text_result = Inr ''Example.COM''\<rparr>"
definition delimitedSource :: response where
  "delimitedSource = \<lparr>ok = True, status = 200, statusText = ''OK'',
     json_result = Inl ''Unexpected token E'', text_result = Inr ''Example.COM,2024-05-01''\<rparr>"
definition structuredSource :: response where
  "structuredSource = \<lparr>ok = True, status = 200, statusText = ''OK'',
     json_result = Inr (JArr [JStr ''Example.COM'']), text_result = Inr ''[\"Example.COM\"]''\<rparr>"

text \<open>
  A body with one entry per line, and what it means for an entry to be normalized
  already: not empty, trimmed, lowercase, not a comment, and free of line feeds, commas
  and double quotes.
\<close>

fun joinLines :: "string list \<Rightarrow> string" where
  "joinLines [] = []"
| "joinLines [d] = d"
| "joinLines (d # ds) = d @ LF # joinLines ds"

definition normalized_entry :: "string \<Rightarrow> bool" where
  "normalized_entry d =
     (d \<noteq> [] \<and> trim d = d \<and> toLowerCase d = d \<and> \<not> startsWith d ''#'' \<and>
      LF \<notin> set d \<and> CHR '','' \<notin> set d \<and> CHR 0x22 \<notin> set d)"

text \<open>The domains \<open>example.com\<close> and \<open>evil.tk\<close> as a text body and as a JSON array.\<close>

definition twoDomainsText :: response where
  "twoDomainsText = \<lparr>ok = True, status = 200, statusText = ''OK'',
     json_result = Inl ''Unexpected token e'',
     text_result = Inr (joinLines [''example.com'', ''evil.tk''])\<rparr>"

definition twoDomainsJson :: response where
  "twoDomainsJson = \<lparr>ok = True, status = 200, statusText = ''OK'',
     json_result = Inr (JArr (map JStr [''example.com'', ''evil.tk''])),
     text_result = Inr ''[\"example.com\",\"evil.tk\"]''\<rparr>"

text \<open>
  The scenario of the allowlist veto: an allowlist source with \<open>example.com\<close> and a
  blacklist source with \<open>example.com\<close> and \<open>evil.tk\<close>, and the tasks
  \<open>fetchDomains\<close> builds for them.
\<close>

definition allowSource :: response where
  "allowSource = \<lparr>ok = True, status = 200, statusText = ''OK'',
     json_result = Inl ''Unexpected token e'', text_result = Inr ''example.com''\<rparr>"

definition denySource :: response where
  "denySource = \<lparr>ok = True, status = 200, statusText = ''OK'',
     json_result = Inl ''Unexpected token e'',
     text_result = Inr (''example.com'' @ [LF] @ ''evil.tk'')\<rparr>"

definition scenarioTasks :: "(json \<Rightarrow> bool) \<Rightarrow> (nat, json collections) task list" where
  "scenarioTasks validateDomain =
     fetchTasks validateDomain [(''allow.txt'', Inr allowSource)] [(''deny.txt'', Inr denySource)] [] []"

section \<open>The smailpro scraper (scrape/smailpro)\<close>

definition MAX_EMAIL_CHANGES :: nat where
  "MAX_EMAIL_CHANGES = 15"

definition MAX_RETRIES :: nat where
  "MAX_RETRIES = 3"

definition RETRY_DELAY_MS :: nat where
  "RETRY_DELAY_MS = 2000"

text \<open>
  What the page shows at one pass of the extraction loop: the outcome of
  \<open>waitForSelector\<close> and \<open>innerText\<close> on the address display, and whether the
  clicks of \<open>generateNewEmail\<close> go through. A session's page is a sequence of these,
  indexed by the pass.
\<close>

datatype read_result = SelectorTimeout | NoElement | InnerTextFails | Text string

record page_step =
  display :: read_result
  generate_ok :: bool

text \<open>\<open>getCurrentEmail\<close> catches every error and returns \<open>null\<close> for it.\<close>

fun getCurrentEmail :: "read_result \<Rightarrow> string option" where
  "getCurrentEmail (Text emailText) =
     (if trim emailText = [] then None else Some (trim emailText))"
| "getCurrentEmail _ = None"

text \<open>\<open>.replace(/\\n/g, '')\<close>: the regular expression is a backslash followed by
  the letter n.\<close>

fun strip_backslash_n :: "string \<Rightarrow> string" where
  "strip_backslash_n (c # d # cs) =
     (if c = CHR 0x5C \<and> d = CHR ''n'' then strip_backslash_n cs
      else c # strip_backslash_n (d # cs))"
| "strip_backslash_n cs = cs"

definition normalizeDomain :: "string \<Rightarrow> string" where
  "normalizeDomain domain =
     strip_backslash_n (filter (\<lambda>c. \<not> is_whitespace c) (toLowerCase (trim domain)))"

text \<open>
  \<open>extractDomain\<close> (../utils/extract-domain) and \<open>validateDomain\<close> are parameters; an
  \<open>Inl\<close> of \<open>extractDomain\<close> is an exception, which \<open>processEmailDomain\<close> catches.
\<close>

definition processEmailDomain ::
  "(string \<Rightarrow> string + string) \<Rightarrow> (string \<Rightarrow> bool) \<Rightarrow> string \<Rightarrow> string option" where
  "processEmailDomain extractDomain validateDomain emailText =
     (case extractDomain emailText of
        Inl error \<Rightarrow> None
      | Inr domain \<Rightarrow>
          (let normalizedDomain = normalizeDomain domain
           in if validateDomain normalizedDomain then Some normalizedDomain else None))"

text \<open>
  The state of the \<open>while\<close> loop of \<open>extractDomainsFromPage\<close>; \<open>passes\<close> counts the
  passes through the loop body and indexes the page.
\<close>

record extraction =
  domains :: "string set"
  successfulChanges :: nat
  passes :: nat

text \<open>
  The loop, \<open>fuel\<close> bounding the number of passes: \<open>None\<close> when the loop wants one
  more pass than \<open>fuel\<close> allows. An empty read is the \<open>continue\<close>, a failing
  \<open>generateNewEmail\<close> the \<open>break\<close>.
\<close>

fun extractLoop ::
  "nat \<Rightarrow> (string \<Rightarrow> string + string) \<Rightarrow> (string \<Rightarrow> bool) \<Rightarrow> nat \<Rightarrow> (nat \<Rightarrow> page_step)
     \<Rightarrow> extraction \<Rightarrow> extraction option" where
  "extractLoop 0 extractDomain validateDomain maxChanges page st =
     (if successfulChanges st < maxChanges then None else Some st)"
| "extractLoop (Suc fuel) extractDomain validateDomain maxChanges page st =
     (if successfulChanges st < maxChanges then
        (let step = page (passes st);
             st1 = st\<lparr>passes := passes st + 1\<rparr>
         in case getCurrentEmail (display step) of
              None \<Rightarrow> extractLoop fuel extractDomain validateDomain maxChanges page st1
            | Some emailText \<Rightarrow>
                (let st2 =
                   (case processEmailDomain extractDomain validateDomain emailText of
                      None \<Rightarrow> st1
                    | Some domain \<Rightarrow>
                        if domain \<noteq> [] then
                          st1\<lparr>domains := insert domain (domains st1),
                              successfulChanges := successfulChanges st1 + 1\<rparr>
                        else st1)
                 in if generate_ok step
                    then extractLoop fuel extractDomain validateDomain maxChanges page st2
                    else Some st2))
      else Some st)"

text \<open>
  \<open>extractDomainsFromPage\<close>; \<open>init_ok\<close> says whether \<open>initializeEmailChange\<close>
  goes through (its exception is caught by the outer \<open>try\<close>).
\<close>

definition extractDomainsFromPage ::
  "nat \<Rightarrow> (string \<Rightarrow> string + string) \<Rightarrow> (string \<Rightarrow> bool) \<Rightarrow> nat \<Rightarrow> bool \<Rightarrow> (nat \<Rightarrow> page_step)
     \<Rightarrow> extraction option" where
  "extractDomainsFromPage fuel extractDomain validateDomain maxChanges init_ok page =
     (let st = \<lparr>domains = {}, successfulChanges = 0, passes = 0\<rparr>
      in if init_ok then extractLoop fuel extractDomain validateDomain maxChanges page st
         else Some st)"

subsection \<open>The retry controller (scrapeWithBrowser)\<close>

text \<open>
  What happens at one attempt: \<open>launchBrowserWithProxy\<close> rejects or returns
  \<open>null\<close>, \<open>navigateToPage\<close> rejects or returns \<open>null\<close>, or the page is reached.
\<close>

datatype attempt_outcome =
    LaunchRejects string
  | LaunchNull
  | NavigationRejects string
  | NavigationNull
  | Navigated bool "nat \<Rightarrow> page_step"

text \<open>What a session does that can be observed from outside, in order.\<close>

datatype retry_event = Launch | Warn nat string | Delay nat | Close

definition attempt_failed :: "nat \<Rightarrow> string \<Rightarrow> retry_event list" where
  "attempt_failed attempt msg =
     [Launch, Warn attempt msg] @
     (if attempt < MAX_RETRIES then [Delay (RETRY_DELAY_MS * attempt)] else []) @
     [Close]"

function scrapeAttempts ::
  "nat \<Rightarrow> (string \<Rightarrow> string + string) \<Rightarrow> (string \<Rightarrow> bool) \<Rightarrow> (nat \<Rightarrow> attempt_outcome)
     \<Rightarrow> nat \<Rightarrow> string option \<Rightarrow> retry_event list
     \<Rightarrow> ((string + string set) \<times> retry_event list) option" where
  "scrapeAttempts fuel extractDomain validateDomain env attempt lastError tr =
     (if attempt \<le> MAX_RETRIES then
        (case env attempt of
           LaunchRejects msg \<Rightarrow> Some (Inl msg, tr @ [Launch])
         | LaunchNull \<Rightarrow>
             scrapeAttempts fuel extractDomain validateDomain env (attempt + 1)
               (Some ''Browser failed to launch'') (tr @ [Launch])
         | NavigationRejects msg \<Rightarrow>
             scrapeAttempts fuel extractDomain validateDomain env (attempt + 1)
               (Some msg) (tr @ attempt_failed attempt msg)
         | NavigationNull \<Rightarrow>
             scrapeAttempts fuel extractDomain validateDomain env (attempt + 1)
               (Some ''Page navigation failed'')
               (tr @ attempt_failed attempt ''Page navigation failed'')
         | Navigated init_ok page \<Rightarrow>
             (case extractDomainsFromPage fuel extractDomain validateDomain
                     MAX_EMAIL_CHANGES init_ok page of
                None \<Rightarrow> None
              | Some st \<Rightarrow> Some (Inr (domains st), tr @ [Launch, Close])))
      else
        Some (Inl (case lastError of
                     Some msg \<Rightarrow> msg
                   | None \<Rightarrow> ''Failed after 3 attempts''), tr))"
  by pat_completeness auto
termination
  by (relation "measure (\<lambda>(fuel, extractDomain, validateDomain, env, attempt, lastError, tr).
        MAX_RETRIES + 1 - attempt)") auto

text \<open>
  \<open>scrapeWithBrowser\<close>: \<open>Inl\<close> is the error it throws, \<open>Inr\<close> the set it returns;
  \<open>None\<close> when the extraction loop of a reached page does not return within
  \<open>fuel\<close> passes.
\<close>

definition scrapeWithBrowser ::
  "nat \<Rightarrow> (string \<Rightarrow> string + string) \<Rightarrow> (string \<Rightarrow> bool) \<Rightarrow> (nat \<Rightarrow> attempt_outcome)
     \<Rightarrow> ((string + string set) \<times> retry_event list) option" where
  "scrapeWithBrowser fuel extractDomain validateDomain env =
     scrapeAttempts fuel extractDomain validateDomain env 1 None []"

text \<open>
  \<open>scrapeTempMailDomains\<close>: \<open>Promise.allSettled\<close> over the browsers of \<open>BROWSERS\<close>
  (./utils/launch, a parameter), then the loop over the settled results.
  \<open>processDomainsResults\<close> (./utils/process) is a parameter: whether it returns for the
  set it is given; when it throws, the \<open>catch\<close> ends the process with code 1.
\<close>

record tally =
  gathered :: "string set"
  successCount :: nat
  failures :: "string list"

fun tally_result :: "string + string set \<Rightarrow> tally \<Rightarrow> tally" where
  "tally_result (Inr value) t =
     t\<lparr>gathered := gathered t \<union> value, successCount := successCount t + 1\<rparr>"
| "tally_result (Inl reason) t = t\<lparr>failures := failures t @ [reason]\<rparr>"

datatype run_outcome = Completed tally | ProcessExit nat

definition scrapeTempMailDomains ::
  "nat \<Rightarrow> (string \<Rightarrow> string + string) \<Rightarrow> (string \<Rightarrow> bool) \<Rightarrow> (string set \<Rightarrow> bool)
     \<Rightarrow> 'b list \<Rightarrow> ('b \<Rightarrow> nat \<Rightarrow> attempt_outcome) \<Rightarrow> run_outcome option" where
  "scrapeTempMailDomains fuel extractDomain validateDomain processDomainsResults BROWSERS env =
     (case those (map (\<lambda>browserType.
                    scrapeWithBrowser fuel extractDomain validateDomain (env browserType))
                  BROWSERS) of
        None \<Rightarrow> None
      | Some outcomes \<Rightarrow>
          (let t = fold tally_result (map fst outcomes)
                     \<lparr>gathered = {}, successCount = 0, failures = []\<rparr>
           in Some (if processDomainsResults (gathered t) then Completed t
                    else ProcessExit 1)))"

subsection \<open>A simulated session\<close>

text \<open>
  The session of the scenario: the display shows an address at \<open>a.test\<close>, \<open>b.test\<close>,
  \<open>a.test\<close> and then \<open>c.test\<close>, and every click goes through. \<open>afterAt\<close> stands in
  for \<open>extractDomain\<close>: the text after the first \<open>@\<close>.
\<close>

definition scenarioPage :: "nat \<Rightarrow> page_step" where
  "scenarioPage i =
     \<lparr>display = Text (if i = 0 then ''kim@a.test''
                      else if i = 1 then ''kim@b.test''
                      else if i = 2 then ''kim@a.test''
                      else ''kim@c.test''),
      generate_ok = True\<rparr>"

definition afterAt :: "string \<Rightarrow> string + string" where
  "afterAt emailText = Inr (drop 1 (dropWhile (\<lambda>c. c \<noteq> CHR ''@'') emailText))"

text \<open>A page whose address display stays empty.\<close>

definition blankPage :: "nat \<Rightarrow> page_step" where
  "blankPage i = \<lparr>display = Text [], generate_ok = True\<rparr>"

text \<open>Two engines: the launch of the first returns \<open>null\<close> at every attempt, the
  second reaches the page of the scenario.\<close>

definition oneEngineDown :: "string \<Rightarrow> nat \<Rightarrow> attempt_outcome" where
  "oneEngineDown browserType attempt =
     (if browserType = ''chromium'' then LaunchNull else Navigated True scenarioPage)"

section \<open>Facts about strings\<close>

lemma length_toLowerCase: "length (toLowerCase s) = length s"
  by (simp add: toLowerCase_def)

lemma toLowerChar_hyphen: "toLowerChar (CHR ''-'') = CHR ''-''"
  by (simp add: toLowerChar_def is_upper_def)

lemma toLowerChar_is_hyphen: "toLowerChar c = CHR ''-'' \<Longrightarrow> c = CHR ''-''"
proof (cases "is_upper c")
  case False
  assume "toLowerChar c = CHR ''-''"
  with False show ?thesis by (simp add: toLowerChar_def)
next
  case True
  assume h: "toLowerChar c = CHR ''-''"
  from True have "97 \<le> (of_char c :: nat) + 32"
    by (auto simp: is_upper_def Let_def)
  moreover from True have "(of_char c :: nat) + 32 < 256"
    by (auto simp: is_upper_def Let_def)
  moreover from h True have "char_of ((of_char c :: nat) + 32) = CHR ''-''"
    by (simp add: toLowerChar_def)
  then have "(of_char (char_of ((of_char c :: nat) + 32) :: char) :: nat) = of_char (CHR ''-'')"
    by simp
  ultimately show ?thesis by simp
qed

section \<open>The TLD checks\<close>

lemma set_insert_by: "set (insert_by cmp x ys) = insert x (set ys)"
  by (induction ys) auto

lemma set_sort_by: "set (sort_by cmp xs) = set xs"
  by (induction xs) (auto simp: set_insert_by)

lemma isValidTld_length: "isValidTld t \<Longrightarrow> length t \<le> 63"
  by (simp add: isValidTld_def MAX_TLD_LENGTH_def)

lemma isValidTld_no_leading_hyphen: "isValidTld t \<Longrightarrow> \<not> startsWith t ''-''"
  by (simp add: isValidTld_def)

lemma processTlds_entries:
  assumes "processTlds localeCompare raw = Inr tldArray" and "x \<in> set tldArray"
  shows "\<exists>t. x = toLowerCase t \<and> isValidTld t"
  using assms
  by (auto simp: processTlds_def validTlds_def Let_def set_sort_by split: if_splits)

lemma startsWith_hyphen_toLowerCase:
  "startsWith (toLowerCase t) ''-'' = startsWith t ''-''"
  by (cases t)
    (auto simp: startsWith_def toLowerCase_def toLowerChar_hyphen dest: toLowerChar_is_hyphen)

lemma generated_rejects_long:
  assumes "processTlds localeCompare raw = Inr tldArray" and "length tld = 64"
  shows "\<not> isValidTld_generated tldArray tld"
proof
  assume "isValidTld_generated tldArray tld"
  then have "toLowerCase tld \<in> set tldArray"
    by (simp add: isValidTld_generated_def)
  from processTlds_entries[OF assms(1) this] obtain t
    where t: "toLowerCase tld = toLowerCase t" "isValidTld t" by blast
  from t(1) have "length tld = length t"
    by (metis length_toLowerCase)
  with t(2) assms(2) show False by (auto dest: isValidTld_length)
qed

lemma generated_rejects_leading_hyphen:
  assumes "processTlds localeCompare raw = Inr tldArray" and "startsWith tld ''-''"
  shows "\<not> isValidTld_generated tldArray tld"
proof
  assume "isValidTld_generated tldArray tld"
  then have "toLowerCase tld \<in> set tldArray"
    by (simp add: isValidTld_generated_def)
  from processTlds_entries[OF assms(1) this] obtain t
    where t: "toLowerCase tld = toLowerCase t" "isValidTld t" by blast
  from assms(2) have "startsWith (toLowerCase tld) ''-''"
    by (simp add: startsWith_hyphen_toLowerCase)
  with t(1) have "startsWith t ''-''"
    by (simp add: startsWith_hyphen_toLowerCase)
  with t(2) show False by (auto dest: isValidTld_no_leading_hyphen)
qed

lemma toLowerCase_COM: "toLowerCase ''COM'' = ''com''"
  by code_simp

lemma toLowerCase_com: "toLowerCase ''com'' = ''com''"
  by code_simp

lemma isValidTld_COM: "isValidTld ''COM''"
  by code_simp

lemma isValidTld_com: "isValidTld ''com''"
  by code_simp

text \<open>
  C9. Both TLD checks, the generator's \<open>isValidTld\<close> and the \<open>isValidTld\<close> of the
  module it generates (for whatever raw list the module was generated from), reject
  every TLD of 64 characters and every TLD that starts with a hyphen, and give
  \<open>COM\<close> and \<open>com\<close> the same verdict; the generator's check accepts both.
\<close>

theorem isValidTld_boundary_cases:
  "(length tld = 64 \<longrightarrow> \<not> isValidTld tld) \<and>
   (startsWith tld ''-'' \<longrightarrow> \<not> isValidTld tld) \<and>
   isValidTld ''COM'' = isValidTld ''com'' \<and> isValidTld ''com'' \<and>
   (processTlds localeCompare raw = Inr tldArray \<longrightarrow>
      (length tld = 64 \<longrightarrow> \<not> isValidTld_generated tldArray tld) \<and>
      (startsWith tld ''-'' \<longrightarrow> \<not> isValidTld_generated tldArray tld) \<and>
      isValidTld_generated tldArray ''COM'' = isValidTld_generated tldArray ''com'')"
proof -
  have a: "length tld = 64 \<longrightarrow> \<not> isValidTld tld"
    by (auto dest: isValidTld_length)
  have b: "startsWith tld ''-'' \<longrightarrow> \<not> isValidTld tld"
    by (auto dest: isValidTld_no_leading_hyphen)
  have c: "isValidTld ''COM'' = isValidTld ''com'' \<and> isValidTld ''com''"
    using isValidTld_COM isValidTld_com by simp
  have d: "isValidTld_generated tldArray ''COM'' = isValidTld_generated tldArray ''com''"
    by (simp only: isValidTld_generated_def toLowerCase_COM toLowerCase_com)
  show ?thesis
    using a b c d generated_rejects_long generated_rejects_leading_hyphen by blast
qed

theorem isValidTld_boundary_cases_witness:
  "length (replicate 64 CHR ''-'') = 64 \<and>
   startsWith (replicate 64 CHR ''-'') ''-'' \<and>
   \<not> isValidTld (replicate 64 CHR ''-'') \<and>
   processTlds (\<lambda>a b. 0) [''COM'', ''# note'', ''net ''] = Inr [''com'', ''net''] \<and>
   \<not> isValidTld_generated [''com'', ''net''] (replicate 64 CHR ''-'') \<and>
   isValidTld_generated [''com'', ''net''] ''COM'' = isValidTld_generated [''com'', ''net''] ''com''"
proof -
  have len: "length (replicate 64 CHR ''-'') = 64"
    by simp
  have hyphen: "startsWith (replicate 64 CHR ''-'') ''-''"
    by code_simp
  have generated: "processTlds (\<lambda>a b. 0) [''COM'', ''# note'', ''net ''] = Inr [''com'', ''net'']"
    by code_simp
  show ?thesis
    using len hyphen generated
      isValidTld_boundary_cases [of "replicate 64 CHR ''-''" "\<lambda>a b. 0"
        "[''COM'', ''# note'', ''net '']" "[''com'', ''net'']"]
    by blast
qed

section \<open>Reconciliation\<close>

lemma processDomain_allow:
  "allowlistSet (processDomain vd True d s) = allowlistSet s \<union> (if vd d then {d} else {})"
  "disposables (processDomain vd True d s) = disposables s"
  by (auto simp: processDomain_def)

lemma processDomain_deny:
  "allowlistSet (processDomain vd False d s) = allowlistSet s"
  "disposables (processDomain vd False d s) =
     disposables s \<union> (if vd d \<and> d \<notin> allowlistSet s then {d} else {})"
  by (auto simp: processDomain_def)

lemma processDomains_allow:
  "allowlistSet (processDomains vd ds True s) = allowlistSet s \<union> {d \<in> set ds. vd d}"
  "disposables (processDomains vd ds True s) = disposables s"
  unfolding processDomains_def
  by (induction ds arbitrary: s) (auto simp: processDomain_allow split: if_splits)

lemma processDomains_deny:
  "allowlistSet (processDomains vd ds False s) = allowlistSet s"
  "disposables (processDomains vd ds False s) =
     disposables s \<union> {d \<in> set ds. vd d \<and> d \<notin> allowlistSet s}"
  unfolding processDomains_def
  by (induction ds arbitrary: s) (auto simp: processDomain_deny split: if_splits)

lemma fold_add_allowlist:
  "allowlistSet (fold (\<lambda>domain s. s\<lparr>allowlistSet := insert (JStr domain) (allowlistSet s)\<rparr>) xs s)
     = allowlistSet s \<union> JStr ` set xs"
  "disposables (fold (\<lambda>domain s. s\<lparr>allowlistSet := insert (JStr domain) (allowlistSet s)\<rparr>) xs s)
     = disposables s"
  by (induction xs arbitrary: s) auto

lemma set_allowlistLines:
  "set (allowlistLines content) =
     {toLowerCase (trim line) | line.
        line \<in> set (split LF content) \<and> trim line \<noteq> [] \<and> \<not> startsWith line ''#''}"
  by (auto simp: allowlistLines_def)

text \<open>
  C10. Every line of the local allowlist file that is kept (not blank once trimmed, and
  not starting with \<open>#\<close> before it is trimmed) is put into the allow set, trimmed and
  lowercased, whatever \<open>validateDomain\<close> would say about it; the disposable set is left
  alone. A fetched candidate goes into either set only if \<open>validateDomain\<close> accepts it.
  So a line with a blank before its \<open>#\<close> is not a comment: it is put into the allow
  set.
\<close>

theorem local_allowlist_bypasses_validation:
  "allowlistSet (loadLocalAllowlist (Some content) s) =
     allowlistSet s \<union>
       JStr ` {toLowerCase (trim line) | line.
                 line \<in> set (split LF content) \<and> trim line \<noteq> [] \<and> \<not> startsWith line ''#''} \<and>
   disposables (loadLocalAllowlist (Some content) s) = disposables s \<and>
   allowlistSet (processDomains validateDomain candidates True s) =
     allowlistSet s \<union> {d \<in> set candidates. validateDomain d} \<and>
   disposables (processDomains validateDomain candidates True s) = disposables s \<and>
   allowlistSet (processDomains validateDomain candidates False s) = allowlistSet s \<and>
   disposables (processDomains validateDomain candidates False s) =
     disposables s \<union> {d \<in> set candidates. validateDomain d \<and> d \<notin> allowlistSet s} \<and>
   loadLocalAllowlist (Some '' #note'') no_domains =
     \<lparr>allowlistSet = {JStr ''#note''}, disposables = {}\<rparr> \<and>
   processDomains (\<lambda>d. False) [JStr ''#note''] True no_domains = no_domains"
proof -
  have load:
    "allowlistSet (loadLocalAllowlist (Some content) s) =
       allowlistSet s \<union>
         JStr ` {toLowerCase (trim line) | line.
                   line \<in> set (split LF content) \<and> trim line \<noteq> [] \<and> \<not> startsWith line ''#''}"
    "disposables (loadLocalAllowlist (Some content) s) = disposables s"
    by (simp_all add: loadLocalAllowlist_def fold_add_allowlist set_allowlistLines)
  have hash_line: "loadLocalAllowlist (Some '' #note'') no_domains =
     \<lparr>allowlistSet = {JStr ''#note''}, disposables = {}\<rparr>"
    by code_simp
  have rejected: "processDomains (\<lambda>d. False) [JStr ''#note''] True no_domains = no_domains"
    by (simp add: processDomains_def processDomain_def)
  show ?thesis
    using load hash_line rejected
    by (simp only: processDomains_allow processDomains_deny simp_thms)
qed

section \<open>The source fetcher\<close>

lemma fetchData_of_failure:
  "fetchData_try net key col = Inl e \<Longrightarrow> fetchData url net key col = ([(url, e)], [])"
  by (simp add: fetchData_def)

lemma processDomains_Nil: "processDomains vd [] isAllow s = s"
  by (simp add: processDomains_def)

lemma fetchTask_of_failure:
  assumes "fetchData_try net key col = Inl e"
  shows "fst (fetchTask vd isAllow url net key col) = 0"
    and "snd (fetchTask vd isAllow url net key col) s = s"
  using assms by (simp_all add: fetchTask_def fetchData_def processDomains_Nil)

text \<open>
  C5. Whatever goes wrong while a source is retrieved or parsed (the transport fails, the
  status is not OK, the body is not JSON or cannot be read, a key is read from
  \<open>null\<close>), \<open>fetchData\<close> writes the error to the log and returns the empty list;
  it has no other way out. The task built on it then resolves with 0 and leaves the two
  collections as they are, so the batch goes on.
\<close>

theorem fetchData_isolates_failures:
  "fetchData url (Inl msg) key col = ([(url, TransportError msg)], []) \<and>
   (\<not> ok r \<longrightarrow>
      fetchData url (Inr r) key col = ([(url, HttpError (status r) (statusText r))], [])) \<and>
   (ok r \<and> json_result r = Inl msg \<longrightarrow>
      fetchData url (Inr r) (Some k) col = ([(url, BodyError msg)], [])) \<and>
   (ok r \<and> text_result r = Inl msg \<longrightarrow>
      fetchData url (Inr r) None col = ([(url, BodyError msg)], [])) \<and>
   (ok r \<and> json_result r = Inr JNull \<and> k \<noteq> ''.'' \<longrightarrow>
      fetchData url (Inr r) (Some k) col =
        ([(url, TypeError ''Cannot read properties of null'')], [])) \<and>
   (fetchData_try net key col = Inl e \<longrightarrow>
      fetchData url net key col = ([(url, e)], []) \<and>
      fst (fetchTask validateDomain isAllowlist url net key col) = 0 \<and>
      snd (fetchTask validateDomain isAllowlist url net key col) s = s)"
proof -
  have transport: "fetchData url (Inl msg) key col = ([(url, TransportError msg)], [])"
    by (simp add: fetchData_def fetchData_try_def)
  have http: "\<not> ok r \<longrightarrow>
      fetchData url (Inr r) key col = ([(url, HttpError (status r) (statusText r))], [])"
    by (simp add: fetchData_def fetchData_try_def)
  have parse: "ok r \<and> json_result r = Inl msg \<longrightarrow>
      fetchData url (Inr r) (Some k) col = ([(url, BodyError msg)], [])"
    by (simp add: fetchData_def fetchData_try_def)
  have body: "ok r \<and> text_result r = Inl msg \<longrightarrow>
      fetchData url (Inr r) None col = ([(url, BodyError msg)], [])"
    by (simp add: fetchData_def fetchData_try_def)
  have null: "ok r \<and> json_result r = Inr JNull \<and> k \<noteq> ''.'' \<longrightarrow>
      fetchData url (Inr r) (Some k) col =
        ([(url, TypeError ''Cannot read properties of null'')], [])"
    by (simp add: fetchData_def fetchData_try_def)
  show ?thesis
    using transport http parse body null
      fetchData_of_failure [of net key col e url]
      fetchTask_of_failure [of net key col e validateDomain isAllowlist url]
    by blast
qed

theorem fetchData_isolates_failures_witness:
  "\<not> ok badGateway \<and>
   fetchData ''u'' (Inr badGateway) (Some ''domains'') None = ([(''u'', HttpError 502 ''Bad Gateway'')], []) \<and>
   ok notJson \<and> json_result notJson = Inl ''Unexpected token <'' \<and>
   fetchData ''u'' (Inr notJson) (Some ''.'') None = ([(''u'', BodyError ''Unexpected token <'')], []) \<and>
   text_result notJson = Inl ''terminated'' \<and>
   fetchData ''u'' (Inr notJson) None (Some 0) = ([(''u'', BodyError ''terminated'')], []) \<and>
   ok nullBody \<and> json_result nullBody = Inr JNull \<and> ''domains'' \<noteq> ''.'' \<and>
   fetchData ''u'' (Inr nullBody) (Some ''domains'') None =
     ([(''u'', TypeError ''Cannot read properties of null'')], []) \<and>
   fetchData_try (Inl ''ECONNRESET'') None None = Inl (TransportError ''ECONNRESET'') \<and>
   fetchData ''u'' (Inl ''ECONNRESET'') None None = ([(''u'', TransportError ''ECONNRESET'')], []) \<and>
   snd (fetchTask (\<lambda>d. True) False ''u'' (Inl ''ECONNRESET'') None None) no_domains = no_domains"
proof -
  have h1: "\<not> ok badGateway" by (simp add: badGateway_def)
  have h2: "ok notJson \<and> json_result notJson = Inl ''Unexpected token <''" by (simp add: notJson_def)
  have h3: "ok notJson \<and> text_result notJson = Inl ''terminated''" by (simp add: notJson_def)
  have h4: "fetchData_try (Inl ''ECONNRESET'') None None = Inl (TransportError ''ECONNRESET'')"
    by (simp add: fetchData_try_def)
  have s5: "status badGateway = 502" "statusText badGateway = ''Bad Gateway''" by (simp_all add: badGateway_def)
  have h6: "ok nullBody \<and> json_result nullBody = Inr JNull \<and> ''domains'' \<noteq> ''.''"
    by (simp add: nullBody_def)
  show ?thesis
    using h1 h2 h3 h4 s5 h6
      fetchData_isolates_failures [of "''u''" "''x''" None None nullBody "''domains''"]
      fetchData_isolates_failures [of "''u''" "''ECONNRESET''" "Some ''domains''" None badGateway]
      fetchData_isolates_failures [of "''u''" "''Unexpected token <''" None None notJson "''.''"]
      fetchData_isolates_failures [of "''u''" "''terminated''" None "Some 0" notJson]
      fetchData_isolates_failures [of "''u''" "''ECONNRESET''" None None notJson "''.''" "Inl ''ECONNRESET''" "TransportError ''ECONNRESET''" "\<lambda>d. True" False no_domains]
    by simp
qed

section \<open>The concurrency limiter\<close>

lemma indexOf_found:
  "x \<in> set xs \<Longrightarrow> 0 \<le> indexOf xs x \<and> nat (indexOf xs x) < length xs"
  by (induction xs) (auto simp: Let_def)

lemma splice1_indexOf:
  "x \<in> set xs \<Longrightarrow> splice1 xs (indexOf xs x) = remove1 x xs"
proof (induction xs)
  case Nil
  then show ?case by simp
next
  case (Cons y ys)
  show ?case
  proof (cases "y = x")
    case True
    then show ?thesis by (simp add: splice1_def)
  next
    case False
    with Cons.prems have mem: "x \<in> set ys" by simp
    from indexOf_found[OF mem] have i: "0 \<le> indexOf ys x" "nat (indexOf ys x) < length ys"
      by simp_all
    from Cons.IH[OF mem] i
    have "take (nat (indexOf ys x)) ys @ drop (nat (indexOf ys x) + 1) ys = remove1 x ys"
      by (simp add: splice1_def Let_def min_def split: if_splits)
    moreover have "nat (indexOf ys x + 1) = Suc (nat (indexOf ys x))"
      using i by simp
    moreover have "indexOf ys x \<le> int (length ys)"
      using i by linarith
    ultimately show ?thesis
      using False i by (simp add: splice1_def Let_def min_def)
  qed
qed

lemma mset_map_remove1:
  "k \<in> set xs \<Longrightarrow> mset (map f (remove1 k xs)) + {#f k#} = mset (map f xs)"
  by (induction xs) auto

lemma length_remove1_mem: "k \<in> set xs \<Longrightarrow> Suc (length (remove1 k xs)) = length xs"
  by (induction xs) auto

lemma remove1_filter_distinct:
  "distinct xs \<Longrightarrow> remove1 k (filter P xs) = filter (\<lambda>j. j \<noteq> k \<and> P j) xs"
  by (induction xs) (auto simp: remove1_idem)

lemma unresolved_after_call:
  assumes "\<forall>k \<in> settled s. k < nxt s"
  shows "unresolved (s\<lparr>executing := xs, nxt := nxt s + 1\<rparr>) = unresolved s @ [nxt s]"
    and "unresolved (s\<lparr>executing := xs, nxt := nxt s + 1, pc := p, awaited := ys\<rparr>) =
           unresolved s @ [nxt s]"
  using assms by (auto simp: unresolved_def)

lemma unresolved_after_settle:
  "unresolved (s\<lparr>results := rs, executing := xs, settled := insert k (settled s),
                 shared := sh, pc := p\<rparr>) = remove1 k (unresolved s)"
proof -
  have "filter (\<lambda>j. j \<notin> insert k (settled s)) [0..<nxt s] =
        filter (\<lambda>j. j \<noteq> k \<and> j \<notin> settled s) [0..<nxt s]"
    by (rule filter_cong) auto
  then show ?thesis
    by (simp add: unresolved_def remove1_filter_distinct)
qed

lemma unresolved_called: "k \<in> set (unresolved s) \<Longrightarrow> k < nxt s \<and> k \<notin> settled s"
  by (auto simp: unresolved_def)

lemma unresolved_pc [simp]: "unresolved (s\<lparr>pc := p\<rparr>) = unresolved s"
  by (simp add: unresolved_def)

lemma unresolved_pc_awaited [simp]: "unresolved (s\<lparr>pc := p, awaited := ys\<rparr>) = unresolved s"
  by (simp add: unresolved_def)

lemma distinct_unresolved: "distinct (unresolved s)"
  by (simp add: unresolved_def)

lemma throttle_invD:
  assumes "throttle_inv limit tasks s"
  shows "nxt s \<le> length tasks"
    and "\<forall>k \<in> settled s. k < nxt s"
    and "executing s = unresolved s"
    and "length (executing s) \<le> limit"
    and "pc s = Loop \<or> pc s = Resuming \<Longrightarrow> length (executing s) < limit"
    and "pc s = AwaitRace \<Longrightarrow> executing s \<noteq> [] \<and> awaited s = executing s"
    and "pc s = AwaitAll \<Longrightarrow>
           set (executing s) \<subseteq> set (awaited s) \<and> (\<forall>k \<in> set (awaited s). k < nxt s)"
    and "pc s = AwaitAll \<or> pc s = Returned \<Longrightarrow> nxt s = length tasks"
    and "pc s = Returned \<Longrightarrow> executing s = []"
    and "mset (results s) + mset (map (\<lambda>k. fst (tasks ! k)) (executing s)) =
           mset (map fst (take (nxt s) tasks))"
  using assms unfolding throttle_inv_def by blast+

lemma throttle_invI:
  assumes "nxt s \<le> length tasks"
    and "\<forall>k \<in> settled s. k < nxt s"
    and "executing s = unresolved s"
    and "length (executing s) \<le> limit"
    and "pc s = Loop \<or> pc s = Resuming \<longrightarrow> length (executing s) < limit"
    and "pc s = AwaitRace \<longrightarrow> executing s \<noteq> [] \<and> awaited s = executing s"
    and "pc s = AwaitAll \<longrightarrow>
           set (executing s) \<subseteq> set (awaited s) \<and> (\<forall>k \<in> set (awaited s). k < nxt s)"
    and "pc s = AwaitAll \<or> pc s = Returned \<longrightarrow> nxt s = length tasks"
    and "pc s = Returned \<longrightarrow> executing s = []"
    and "mset (results s) + mset (map (\<lambda>k. fst (tasks ! k)) (executing s)) =
           mset (map fst (take (nxt s) tasks))"
  shows "throttle_inv limit tasks s"
  using assms unfolding throttle_inv_def by blast

lemma inv_start: "0 < limit \<Longrightarrow> throttle_inv limit tasks (start sh)"
  by (simp add: throttle_inv_def start_def unresolved_def)

lemma inv_Call:
  assumes "throttle_inv limit tasks s" and "apply_event limit tasks Call s = Some s'"
  shows "throttle_inv limit tasks s'"
proof -
  note inv = throttle_invD[OF assms(1)]
  from assms(2) have g: "pc s = Loop" "nxt s < length tasks"
    by (auto simp: apply_event_def split: if_splits)
  from inv(5) g have lt: "length (executing s) < limit" by blast
  have m': "mset (results s) + mset (map (\<lambda>k. fst (tasks ! k)) (executing s @ [nxt s])) =
        mset (map fst (take (Suc (nxt s)) tasks))"
    using inv(10) g(2) by (simp add: take_Suc_conv_app_nth)
  have st': "\<forall>k \<in> settled s. k < Suc (nxt s)"
    using inv(2) by auto
  have un: "unresolved s @ [nxt s] = executing s @ [nxt s]"
    using inv(3) by simp
  show ?thesis
  proof (cases "limit \<le> length (executing s @ [nxt s])")
    case True
    with assms(2) g have s': "s' = s\<lparr>executing := executing s @ [nxt s], nxt := nxt s + 1,
        pc := AwaitRace, awaited := executing s @ [nxt s]\<rparr>"
      by (simp add: apply_event_def Let_def)
    have fields: "nxt s' = Suc (nxt s)" "settled s' = settled s"
      "executing s' = executing s @ [nxt s]" "pc s' = AwaitRace"
      "awaited s' = executing s @ [nxt s]" "results s' = results s"
      "unresolved s' = executing s @ [nxt s]"
      unfolding s' using unresolved_after_call(2)[OF inv(2)] un by simp_all
    show ?thesis
      by (rule throttle_invI; (unfold fields)?)
        (use g lt st' m' in \<open>simp_all del: mset_append mset_map\<close>)
  next
    case False
    with assms(2) g have s': "s' = s\<lparr>executing := executing s @ [nxt s], nxt := nxt s + 1\<rparr>"
      by (simp add: apply_event_def Let_def)
    have fields: "nxt s' = Suc (nxt s)" "settled s' = settled s"
      "executing s' = executing s @ [nxt s]" "pc s' = Loop"
      "awaited s' = awaited s" "results s' = results s"
      "unresolved s' = executing s @ [nxt s]"
      unfolding s' using unresolved_after_call(1)[OF inv(2)] un g by simp_all
    show ?thesis
      by (rule throttle_invI; (unfold fields)?)
        (use g lt st' m' False in \<open>simp_all del: mset_append mset_map\<close>)
  qed
qed

lemma inv_Settle:
  assumes "throttle_inv limit tasks s" and "apply_event limit tasks (Settle k) s = Some s'"
  shows "throttle_inv limit tasks s'"
proof -
  note inv = throttle_invD[OF assms(1)]
  from assms(2) have g: "pc s = AwaitRace \<or> pc s = Resuming \<or> pc s = AwaitAll"
    and u: "k \<in> set (unresolved s)"
    by (auto simp: apply_event_def split: if_splits)
  from u inv(3) have mem: "k \<in> set (executing s)" by simp
  define p where "p = (if pc s = AwaitRace \<and> k \<in> set (awaited s) then Resuming else pc s)"
  from assms(2) g u mem have s': "s' = s\<lparr>results := results s @ [fst (tasks ! k)],
                    executing := remove1 k (executing s),
                    settled := insert k (settled s),
                    shared := snd (tasks ! k) (shared s),
                    pc := p\<rparr>"
    by (auto simp: apply_event_def splice1_indexOf p_def)
  have p_cases: "p = Resuming \<or> p = AwaitAll" "p = AwaitAll \<longrightarrow> pc s = AwaitAll"
    using g inv(6) mem by (auto simp: p_def)
  note len = length_remove1_mem[OF mem]
  define pending where "pending = mset (map (\<lambda>k. fst (tasks ! k)) (executing s))"
  define pending' where "pending' = mset (map (\<lambda>k. fst (tasks ! k)) (remove1 k (executing s)))"
  have ms: "pending' + {#fst (tasks ! k)#} = pending"
    unfolding pending_def pending'_def by (rule mset_map_remove1[OF mem])
  from inv(10) have m: "mset (results s) + pending = mset (map fst (take (nxt s) tasks))"
    by (simp only: pending_def)
  have "mset (results s @ [fst (tasks ! k)]) + pending' =
          mset (results s) + (pending' + {#fst (tasks ! k)#})"
    by simp
  also have "\<dots> = mset (map fst (take (nxt s) tasks))"
    unfolding ms by (rule m)
  finally have m': "mset (results s @ [fst (tasks ! k)]) +
      mset (map (\<lambda>k. fst (tasks ! k)) (remove1 k (executing s))) =
        mset (map fst (take (nxt s) tasks))"
    unfolding pending'_def .
  have "unresolved s' = remove1 k (unresolved s)"
    unfolding s' by (rule unresolved_after_settle)
  then have un: "unresolved s' = remove1 k (executing s)"
    using inv(3) by simp
  have st': "\<forall>j \<in> insert k (settled s). j < nxt s"
    using inv(2) unresolved_called[OF u] by auto
  have short: "length (remove1 k (executing s)) < limit"
    using inv(4) len by simp
  have sub: "pc s = AwaitAll \<longrightarrow> set (remove1 k (executing s)) \<subseteq> set (awaited s) \<and>
      (\<forall>k \<in> set (awaited s). k < nxt s) \<and> nxt s = length tasks"
    using inv(7,8) set_remove1_subset[of k "executing s"] by blast
  have fields: "nxt s' = nxt s" "settled s' = insert k (settled s)"
    "executing s' = remove1 k (executing s)" "pc s' = p" "awaited s' = awaited s"
    "results s' = results s @ [fst (tasks ! k)]"
    unfolding s' by simp_all
  show ?thesis
    by (rule throttle_invI; (unfold fields un)?)
      (use inv(1) st' short sub p_cases m' in \<open>auto simp del: mset_append mset_map\<close>)
qed

lemma inv_Return:
  assumes "throttle_inv limit tasks s" and "apply_event limit tasks Return s = Some s'"
  shows "throttle_inv limit tasks s'"
proof -
  note inv = throttle_invD[OF assms(1)]
  from assms(2) have g: "pc s = AwaitAll" "list_all (\<lambda>k. k \<in> settled s) (awaited s)"
    and s': "s' = s\<lparr>pc := Returned\<rparr>"
    by (auto simp: apply_event_def split: if_splits)
  from inv(7) g(1) have sub: "set (executing s) \<subseteq> set (awaited s)" by blast
  have empty: "executing s = []"
  proof (cases "executing s")
    case Nil
    then show ?thesis .
  next
    case (Cons k ks)
    then have k: "k \<in> set (executing s)" by simp
    with sub g(2) have "k \<in> settled s" by (auto simp: list_all_iff)
    moreover from k inv(3) have "k \<notin> settled s" by (simp add: unresolved_called)
    ultimately show ?thesis by simp
  qed
  have fields: "nxt s' = nxt s" "settled s' = settled s" "executing s' = executing s"
    "pc s' = Returned" "awaited s' = awaited s" "results s' = results s"
    "unresolved s' = unresolved s"
    unfolding s' by simp_all
  show ?thesis
    by (rule throttle_invI; (unfold fields)?)
      (use inv g(1) empty in \<open>simp_all del: mset_append mset_map\<close>)
qed

lemma inv_Exit:
  assumes "throttle_inv limit tasks s" and "apply_event limit tasks Exit s = Some s'"
  shows "throttle_inv limit tasks s'"
proof -
  note inv = throttle_invD[OF assms(1)]
  from assms(2) have g: "pc s = Loop" "nxt s = length tasks"
    and s': "s' = s\<lparr>pc := AwaitAll, awaited := executing s\<rparr>"
    by (auto simp: apply_event_def split: if_splits)
  have called: "\<forall>k \<in> set (executing s). k < nxt s"
    using inv(3) unresolved_called by metis
  have fields: "nxt s' = nxt s" "settled s' = settled s" "executing s' = executing s"
    "pc s' = AwaitAll" "awaited s' = executing s" "results s' = results s"
    "unresolved s' = unresolved s"
    unfolding s' by simp_all
  show ?thesis
    by (rule throttle_invI; (unfold fields)?)
      (use inv g called in \<open>simp_all del: mset_append mset_map\<close>)
qed

lemma inv_Resume:
  assumes "throttle_inv limit tasks s" and "apply_event limit tasks Resume s = Some s'"
  shows "throttle_inv limit tasks s'"
proof -
  note inv = throttle_invD[OF assms(1)]
  from assms(2) have g: "pc s = Resuming" and s': "s' = s\<lparr>pc := Loop\<rparr>"
    by (auto simp: apply_event_def split: if_splits)
  have fields: "nxt s' = nxt s" "settled s' = settled s" "executing s' = executing s"
    "pc s' = Loop" "awaited s' = awaited s" "results s' = results s"
    "unresolved s' = unresolved s"
    unfolding s' by simp_all
  show ?thesis
    by (rule throttle_invI; (unfold fields)?)
      (use inv g in \<open>simp_all del: mset_append mset_map\<close>)
qed

lemma inv_step:
  assumes "throttle_inv limit tasks s" and "apply_event limit tasks e s = Some s'"
  shows "throttle_inv limit tasks s'"
proof (cases e)
  case Call
  with assms inv_Call show ?thesis by blast
next
  case (Settle k)
  with assms inv_Settle show ?thesis by blast
next
  case Exit
  with assms inv_Exit show ?thesis by blast
next
  case Resume
  with assms inv_Resume show ?thesis by blast
next
  case Return
  with assms inv_Return show ?thesis by blast
qed

lemma inv_exec:
  "throttle_inv limit tasks s \<Longrightarrow> exec limit tasks es s = Some s' \<Longrightarrow> throttle_inv limit tasks s'"
proof (induction es arbitrary: s)
  case Nil
  then show ?case by simp
next
  case (Cons e es)
  then show ?case by (auto split: option.splits dest: inv_step)
qed

lemma step_decreases:
  assumes "throttle_inv limit tasks s" and "apply_event limit tasks e s = Some s'"
  shows "steps_left tasks s' < steps_left tasks s"
proof (cases e)
  case Call
  with assms(2) show ?thesis
    by (auto simp: apply_event_def steps_left_def Let_def split: if_splits)
next
  case (Settle k)
  with assms(2) have "k \<in> set (unresolved s)"
    by (auto simp: apply_event_def split: if_splits)
  with throttle_invD(3)[OF assms(1)] have g: "k \<in> set (executing s)"
    by simp
  from length_remove1_mem[OF g] Settle assms(2) show ?thesis
    by (auto simp: apply_event_def steps_left_def splice1_indexOf g split: if_splits)
next
  case Exit
  with assms(2) show ?thesis
    by (auto simp: apply_event_def steps_left_def split: if_splits)
next
  case Resume
  with assms(2) show ?thesis
    by (auto simp: apply_event_def steps_left_def split: if_splits)
next
  case Return
  with assms(2) show ?thesis
    by (auto simp: apply_event_def steps_left_def split: if_splits)
qed

lemma exec_length:
  "throttle_inv limit tasks s \<Longrightarrow> exec limit tasks es s = Some s' \<Longrightarrow>
     length es + steps_left tasks s' \<le> steps_left tasks s"
proof (induction es arbitrary: s)
  case Nil
  then show ?case by simp
next
  case (Cons e es)
  from Cons.prems(2) obtain s1 where s1: "apply_event limit tasks e s = Some s1"
    "exec limit tasks es s1 = Some s'"
    by (auto split: option.splits)
  from Cons.IH[OF inv_step[OF Cons.prems(1) s1(1)] s1(2)] step_decreases[OF Cons.prems(1) s1(1)]
  show ?case by simp
qed

lemma all_awaited_settled:
  assumes "throttle_inv limit tasks s" and "pc s = AwaitAll" and "unresolved s = []"
  shows "list_all (\<lambda>k. k \<in> settled s) (awaited s)"
proof -
  from throttle_invD(7)[OF assms(1)] assms(2) have a: "\<forall>k \<in> set (awaited s). k < nxt s"
    by blast
  have "k \<in> settled s" if "k \<in> set (awaited s)" for k
  proof (rule ccontr)
    assume "k \<notin> settled s"
    with a that have "k \<in> set (unresolved s)" by (simp add: unresolved_def)
    with assms(3) show False by simp
  qed
  then show ?thesis by (simp add: list_all_iff)
qed

lemma next_event_enabled:
  assumes "throttle_inv limit tasks s" and "pc s \<noteq> Returned"
  shows "\<exists>s'. apply_event limit tasks
           (case pc s of
              Loop \<Rightarrow> (if nxt s < length tasks then Call else Exit)
            | AwaitRace \<Rightarrow> Settle (hd (unresolved s))
            | Resuming \<Rightarrow> Resume
            | AwaitAll \<Rightarrow> (if unresolved s = [] then Return else Settle (hd (unresolved s)))
            | Returned \<Rightarrow> Return) s = Some s'"
proof (cases "pc s")
  case Loop
  with throttle_invD(1)[OF assms(1)] show ?thesis
    by (auto simp: apply_event_def Let_def)
next
  case AwaitRace
  with throttle_invD(3,6)[OF assms(1)] have "unresolved s \<noteq> []" by metis
  with AwaitRace show ?thesis by (simp add: apply_event_def)
next
  case Resuming
  then show ?thesis by (simp add: apply_event_def)
next
  case AwaitAll
  with all_awaited_settled[OF assms(1)] show ?thesis by (simp add: apply_event_def)
next
  case Returned
  with assms(2) show ?thesis by simp
qed

lemma oldest_first_returns:
  "throttle_inv limit tasks s \<Longrightarrow> steps_left tasks s \<le> fuel \<Longrightarrow>
     \<exists>es s'. oldest_first fuel limit tasks s = Some es \<and> exec limit tasks es s = Some s' \<and>
       pc s' = Returned"
proof (induction fuel arbitrary: s)
  case 0
  then have "pc s = Returned"
    by (cases "pc s") (auto simp: steps_left_def)
  then show ?case by simp
next
  case (Suc fuel)
  show ?case
  proof (cases "pc s = Returned")
    case True
    then show ?thesis by simp
  next
    case False
    define e where "e = (case pc s of
              Loop \<Rightarrow> (if nxt s < length tasks then Call else Exit)
            | AwaitRace \<Rightarrow> Settle (hd (unresolved s))
            | Resuming \<Rightarrow> Resume
            | AwaitAll \<Rightarrow> (if unresolved s = [] then Return else Settle (hd (unresolved s)))
            | Returned \<Rightarrow> Return)"
    from next_event_enabled[OF Suc.prems(1) False] obtain s1
      where s1: "apply_event limit tasks e s = Some s1" unfolding e_def by blast
    have inv1: "throttle_inv limit tasks s1" using inv_step[OF Suc.prems(1) s1] .
    have "steps_left tasks s1 \<le> fuel"
      using step_decreases[OF Suc.prems(1) s1] Suc.prems(2) by simp
    from Suc.IH[OF inv1 this] obtain es s' where
      r: "oldest_first fuel limit tasks s1 = Some es" "exec limit tasks es s1 = Some s'"
        "pc s' = Returned"
      by blast
    have "oldest_first (Suc fuel) limit tasks s = Some (e # es)"
      using False s1 r(1) unfolding e_def by (simp add: Let_def)
    moreover have "exec limit tasks (e # es) s = Some s'"
      using s1 r(2) by simp
    ultimately show ?thesis using r(3) by blast
  qed
qed

text \<open>
  C3. For a limit above 0 and tasks that all settle, \<open>throttlePromises\<close> cannot
  deadlock and returns: in every state an execution reaches some step is possible unless
  the function has returned, every step lowers \<open>steps_left\<close> (so an execution has at
  most \<open>4 * length tasks + 2\<close> steps), a return can be reached, and at the return
  no task is unresolved, nothing is left in \<open>executing\<close> and \<open>results\<close> holds
  exactly one result per task, in the order the tasks settled. The limit 1 (serial) and a limit at or above the
  number of tasks are instances.
\<close>

theorem throttlePromises_completes:
  "0 < limit \<Longrightarrow> exec limit tasks es (start sh) = Some s \<Longrightarrow>
     length es + steps_left tasks s \<le> 4 * length tasks + 2 \<and>
     (\<forall>e s'. apply_event limit tasks e s = Some s' \<longrightarrow> steps_left tasks s' < steps_left tasks s) \<and>
     (pc s \<noteq> Returned \<longrightarrow> (\<exists>e s'. apply_event limit tasks e s = Some s')) \<and>
     (\<exists>es' s'. exec limit tasks es' s = Some s' \<and> pc s' = Returned) \<and>
     (pc s = Returned \<longrightarrow>
        unresolved s = [] \<and> executing s = [] \<and> mset (results s) = mset (map fst tasks) \<and>
        length (results s) = length tasks)"
proof -
  assume limit: "0 < limit" and run: "exec limit tasks es (start sh) = Some s"
  have inv: "throttle_inv limit tasks s"
    using inv_exec[OF inv_start[OF limit] run] .
  have bound: "length es + steps_left tasks s \<le> 4 * length tasks + 2"
    using exec_length[OF inv_start[OF limit] run] by (simp add: steps_left_def start_def)
  have decr: "\<forall>e s'. apply_event limit tasks e s = Some s' \<longrightarrow> steps_left tasks s' < steps_left tasks s"
    using step_decreases[OF inv] by blast
  have progress: "pc s \<noteq> Returned \<longrightarrow> (\<exists>e s'. apply_event limit tasks e s = Some s')"
    using next_event_enabled[OF inv] by blast
  have reach: "\<exists>es' s'. exec limit tasks es' s = Some s' \<and> pc s' = Returned"
    using oldest_first_returns[OF inv order_refl] by blast
  have finished: "pc s = Returned \<longrightarrow>
        unresolved s = [] \<and> executing s = [] \<and> mset (results s) = mset (map fst tasks) \<and>
        length (results s) = length tasks"
  proof
    assume r: "pc s = Returned"
    note facts = throttle_invD[OF inv]
    from facts(9) r have e: "executing s = []" by blast
    from facts(8) r have n: "nxt s = length tasks" by blast
    from facts(3) e have u: "unresolved s = []" by simp
    from facts(10) e n have ms: "mset (results s) = mset (map fst tasks)" by simp
    then have "size (mset (results s)) = size (mset (map fst tasks))" by simp
    then have "length (results s) = length tasks" by simp
    with e u ms show "unresolved s = [] \<and> executing s = [] \<and>
        mset (results s) = mset (map fst tasks) \<and> length (results s) = length tasks" by simp
  qed
  show ?thesis using bound decr progress reach finished by blast
qed

lemma serial_run:
  "exec 1 twoTasks [Call, Settle 0, Resume, Call, Settle 1, Resume, Exit, Return] (start 0) =
     Some \<lparr>pc = Returned, nxt = 2, executing = [], awaited = [], results = [''a'', ''b''],
            settled = {0, 1}, shared = 2\<rparr>"
  by code_simp

lemma serial_first_call:
  "exec 1 twoTasks [Call] (start 0) =
     Some \<lparr>pc = AwaitRace, nxt = 1, executing = [0], awaited = [0], results = [],
            settled = {}, shared = 0\<rparr>"
  by code_simp

lemma parallel_run:
  "exec 2 twoTasks [Call, Call, Settle 1, Resume, Exit, Settle 0, Return] (start 0) =
     Some \<lparr>pc = Returned, nxt = 2, executing = [], awaited = [0], results = [''b'', ''a''],
            settled = {0, 1}, shared = 2\<rparr>"
  by code_simp

theorem throttlePromises_completes_witness:
  "(0::nat) < 1 \<and>
   exec 1 twoTasks [Call, Settle 0, Resume, Call, Settle 1, Resume, Exit, Return] (start 0) =
     Some \<lparr>pc = Returned, nxt = 2, executing = [], awaited = [], results = [''a'', ''b''],
            settled = {0, 1}, shared = 2\<rparr> \<and>
   mset [''a'', ''b''] = mset (map fst twoTasks) \<and>
   (0::nat) < 2 \<and>
   exec 2 twoTasks [Call, Call, Settle 1, Resume, Exit, Settle 0, Return] (start 0) =
     Some \<lparr>pc = Returned, nxt = 2, executing = [], awaited = [0], results = [''b'', ''a''],
            settled = {0, 1}, shared = 2\<rparr> \<and>
   mset [''b'', ''a''] = mset (map fst twoTasks) \<and>
   exec 1 twoTasks [Call] (start 0) =
     Some \<lparr>pc = AwaitRace, nxt = 1, executing = [0], awaited = [0], results = [],
            settled = {}, shared = 0\<rparr> \<and>
   (\<exists>e s'. apply_event 1 twoTasks e
             \<lparr>pc = AwaitRace, nxt = 1, executing = [0], awaited = [0], results = [],
              settled = {}, shared = 0\<rparr> = Some s')"
proof -
  have one: "(0::nat) < 1" and two: "(0::nat) < 2" by simp_all
  have final: "(0::nat) < 1 \<and>
   exec 1 twoTasks [Call, Settle 0, Resume, Call, Settle 1, Resume, Exit, Return] (start 0) =
     Some \<lparr>pc = Returned, nxt = 2, executing = [], awaited = [], results = [''a'', ''b''],
            settled = {0, 1}, shared = 2\<rparr> \<and>
   mset [''a'', ''b''] = mset (map fst twoTasks) \<and>
   (0::nat) < 2 \<and>
   exec 2 twoTasks [Call, Call, Settle 1, Resume, Exit, Settle 0, Return] (start 0) =
     Some \<lparr>pc = Returned, nxt = 2, executing = [], awaited = [0], results = [''b'', ''a''],
            settled = {0, 1}, shared = 2\<rparr> \<and>
   mset [''b'', ''a''] = mset (map fst twoTasks)"
    using throttlePromises_completes [OF one serial_run]
      throttlePromises_completes [OF two parallel_run] serial_run parallel_run
    by simp
  have moving: "\<exists>e s'. apply_event 1 twoTasks e
             \<lparr>pc = AwaitRace, nxt = 1, executing = [0], awaited = [0], results = [],
              settled = {}, shared = 0\<rparr> = Some s'"
    using throttlePromises_completes [OF one serial_first_call] by simp
  show ?thesis
    using final serial_first_call moving by blast
qed

text \<open>
  C4. For a limit above 0, in no state an execution reaches are more than \<open>limit\<close>
  tasks unresolved (called and not yet settled); their promises are exactly the contents
  of \<open>executing\<close>.
\<close>

theorem throttlePromises_bound:
  "0 < limit \<Longrightarrow> exec limit tasks es (start sh) = Some s \<Longrightarrow>
     length (unresolved s) \<le> limit \<and> executing s = unresolved s"
proof -
  assume limit: "0 < limit" and run: "exec limit tasks es (start sh) = Some s"
  have "throttle_inv limit tasks s"
    using inv_exec[OF inv_start[OF limit] run] .
  from throttle_invD(3,4)[OF this] show ?thesis by simp
qed

lemma two_started:
  "exec 2 (twoTasks @ twoTasks) [Call, Call] (start 0) =
     Some \<lparr>pc = AwaitRace, nxt = 2, executing = [0, 1], awaited = [0, 1], results = [],
            settled = {}, shared = 0\<rparr>"
  by code_simp

theorem throttlePromises_bound_witness:
  "(0::nat) < 2 \<and>
   exec 2 (twoTasks @ twoTasks) [Call, Call] (start 0) =
     Some \<lparr>pc = AwaitRace, nxt = 2, executing = [0, 1], awaited = [0, 1], results = [],
            settled = {}, shared = 0\<rparr> \<and>
   length (unresolved \<lparr>pc = AwaitRace, nxt = 2, executing = [0, 1], awaited = [0, 1],
            results = [] :: string list, settled = {}, shared = 0::nat\<rparr>) \<le> 2 \<and>
   exec 2 (twoTasks @ twoTasks) [Call, Call, Call] (start 0) = None"
proof -
  have two: "(0::nat) < 2" by simp
  have blocked: "exec 2 (twoTasks @ twoTasks) [Call, Call, Call] (start 0) = None"
    by code_simp
  have bounded: "length (unresolved \<lparr>pc = AwaitRace, nxt = 2, executing = [0, 1],
            awaited = [0, 1], results = [] :: string list, settled = {}, shared = 0::nat\<rparr>) \<le> 2"
    using throttlePromises_bound [OF two two_started] by (rule conjunct1)
  show ?thesis
    by (intro conjI) (rule two two_started bounded blocked)+
qed

section \<open>The allowlist veto\<close>

lemma fetch_allowSource:
  "snd (fetchData ''allow.txt'' (Inr allowSource) None None) = [JStr ''example.com'']"
  by code_simp

lemma fetch_denySource:
  "snd (fetchData ''deny.txt'' (Inr denySource) None None) = [JStr ''example.com'', JStr ''evil.tk'']"
  by code_simp

lemma scenarioTasks_eq:
  "scenarioTasks vd =
     [(1, processDomains vd [JStr ''example.com''] True),
      (2, processDomains vd [JStr ''example.com'', JStr ''evil.tk''] False)]"
  by (simp add: scenarioTasks_def fetchTasks_def fetchTask_def fetch_allowSource fetch_denySource)

lemma deny_first_run:
  "exec MAX_CONCURRENT_REQUESTS (scenarioTasks vd) [Call, Call, Exit, Settle 1, Settle 0, Return]
      (main_start None) =
     Some \<lparr>pc = Returned, nxt = 2, executing = [], awaited = [0, 1], results = [2, 1],
       settled = {0, 1},
       shared = processDomains vd [JStr ''example.com''] True
                  (processDomains vd [JStr ''example.com'', JStr ''evil.tk''] False no_domains)\<rparr>"
  by (simp add: scenarioTasks_eq MAX_CONCURRENT_REQUESTS_def main_start_def loadLocalAllowlist_def
      apply_event_def start_def splice1_def unresolved_def Let_def insert_commute)

lemma allow_first_run:
  "exec MAX_CONCURRENT_REQUESTS (scenarioTasks vd) [Call, Call, Exit, Settle 0, Settle 1, Return]
      (main_start None) =
     Some \<lparr>pc = Returned, nxt = 2, executing = [], awaited = [0, 1], results = [1, 2],
       settled = {0, 1},
       shared = processDomains vd [JStr ''example.com'', JStr ''evil.tk''] False
                  (processDomains vd [JStr ''example.com''] True no_domains)\<rparr>"
  by (simp add: scenarioTasks_eq MAX_CONCURRENT_REQUESTS_def main_start_def loadLocalAllowlist_def
      apply_event_def start_def splice1_def unresolved_def Let_def insert_commute)

text \<open>
  C1. \<open>main\<close> hands the disposable set to the writers as the tasks left it; no
  subtraction of the allow set follows. With the two sources of the scenario and a
  validator that accepts \<open>example.com\<close>, the run in which the blacklist task settles
  first publishes \<open>example.com\<close> in both sets, the run in which the allowlist task
  settles first publishes it in the allow set only.
\<close>

theorem allow_veto_depends_on_order:
  "validateDomain (JStr ''example.com'') \<longrightarrow>
     (\<exists>s. exec MAX_CONCURRENT_REQUESTS (scenarioTasks validateDomain)
             [Call, Call, Exit, Settle 1, Settle 0, Return] (main_start None) = Some s \<and>
          pc s = Returned \<and>
          JStr ''example.com'' \<in> published_allowlist s \<and>
          JStr ''example.com'' \<in> published_disposables s) \<and>
     (\<exists>s. exec MAX_CONCURRENT_REQUESTS (scenarioTasks validateDomain)
             [Call, Call, Exit, Settle 0, Settle 1, Return] (main_start None) = Some s \<and>
          pc s = Returned \<and>
          JStr ''example.com'' \<in> published_allowlist s \<and>
          JStr ''example.com'' \<notin> published_disposables s)"
proof
  assume vd: "validateDomain (JStr ''example.com'')"
  have bad: "JStr ''example.com'' \<in> disposables (processDomains validateDomain [JStr ''example.com''] True
                  (processDomains validateDomain [JStr ''example.com'', JStr ''evil.tk''] False no_domains))"
    using vd by (simp add: processDomains_allow processDomains_deny no_domains_def)
  have bad_allow: "JStr ''example.com'' \<in> allowlistSet (processDomains validateDomain [JStr ''example.com''] True
                  (processDomains validateDomain [JStr ''example.com'', JStr ''evil.tk''] False no_domains))"
    using vd by (simp add: processDomains_allow processDomains_deny no_domains_def)
  have good: "JStr ''example.com'' \<notin> disposables (processDomains validateDomain [JStr ''example.com'', JStr ''evil.tk''] False
                  (processDomains validateDomain [JStr ''example.com''] True no_domains))"
    using vd by (simp add: processDomains_allow processDomains_deny no_domains_def)
  have good_allow: "JStr ''example.com'' \<in> allowlistSet (processDomains validateDomain [JStr ''example.com'', JStr ''evil.tk''] False
                  (processDomains validateDomain [JStr ''example.com''] True no_domains))"
    using vd by (simp add: processDomains_allow processDomains_deny no_domains_def)
  show "(\<exists>s. exec MAX_CONCURRENT_REQUESTS (scenarioTasks validateDomain)
             [Call, Call, Exit, Settle 1, Settle 0, Return] (main_start None) = Some s \<and>
          pc s = Returned \<and>
          JStr ''example.com'' \<in> published_allowlist s \<and>
          JStr ''example.com'' \<in> published_disposables s) \<and>
     (\<exists>s. exec MAX_CONCURRENT_REQUESTS (scenarioTasks validateDomain)
             [Call, Call, Exit, Settle 0, Settle 1, Return] (main_start None) = Some s \<and>
          pc s = Returned \<and>
          JStr ''example.com'' \<in> published_allowlist s \<and>
          JStr ''example.com'' \<notin> published_disposables s)"
    unfolding deny_first_run allow_first_run
    using bad bad_allow good good_allow
    by (simp add: published_allowlist_def published_disposables_def)
qed

theorem allow_veto_depends_on_order_witness:
  "(\<lambda>d. True) (JStr ''example.com'') \<and>
   (\<exists>s. exec MAX_CONCURRENT_REQUESTS (scenarioTasks (\<lambda>d. True))
             [Call, Call, Exit, Settle 1, Settle 0, Return] (main_start None) = Some s \<and>
          pc s = Returned \<and>
          published_allowlist s = {JStr ''example.com''} \<and>
          published_disposables s = {JStr ''example.com'', JStr ''evil.tk''})"
proof -
  have "published_allowlist \<lparr>pc = Returned, nxt = 2, executing = [], awaited = [0, 1],
       results = [2, 1], settled = {0, 1},
       shared = processDomains (\<lambda>d. True) [JStr ''example.com''] True
                  (processDomains (\<lambda>d. True) [JStr ''example.com'', JStr ''evil.tk''] False no_domains)\<rparr>
        = {JStr ''example.com''}"
    by (auto simp: published_allowlist_def processDomains_allow processDomains_deny no_domains_def)
  moreover have "published_disposables \<lparr>pc = Returned, nxt = 2, executing = [],
       awaited = [0, 1], results = [2, 1], settled = {0, 1},
       shared = processDomains (\<lambda>d. True) [JStr ''example.com''] True
                  (processDomains (\<lambda>d. True) [JStr ''example.com'', JStr ''evil.tk''] False no_domains)\<rparr>
        = {JStr ''example.com'', JStr ''evil.tk''}"
    by (auto simp: published_disposables_def processDomains_allow processDomains_deny no_domains_def)
  ultimately show ?thesis
    using allow_veto_depends_on_order [of "\<lambda>d. True"] deny_first_run [of "\<lambda>d. True"]
    by simp
qed

section \<open>The three formats\<close>

lemma fetch_plainSource: "fetchData url (Inr plainSource) None None = ([], [JStr ''example.com''])"
  by code_simp
lemma fetch_delimitedSource: "fetchData url (Inr delimitedSource) None (Some 0) = ([], [JStr ''example.com''])"
  by code_simp
lemma fetch_structuredSource: "fetchData url (Inr structuredSource) (Some ''.'') None = ([], [JStr ''Example.COM''])"
  by code_simp

lemma deny_single:
  "disposables (processDomains vd [d] False no_domains) = (if vd d then {d} else {})"
  by (simp add: processDomains_def processDomain_def no_domains_def)

lemma mixed_case_differs: "JStr ''Example.COM'' \<noteq> JStr ''example.com''"
  by simp

text \<open>
  C6. The plain and the delimited path trim and lowercase every entry; the structured
  path returns the array as it was parsed. For the one domain \<open>Example.COM\<close> the
  first two yield \<open>example.com\<close>, the third \<open>Example.COM\<close>, and for every
  validator that accepts \<open>example.com\<close> the candidate sets after validation differ.
\<close>

theorem structured_source_is_not_normalized:
  "fetchData url (Inr plainSource) None None = ([], [JStr ''example.com'']) \<and>
   fetchData url (Inr delimitedSource) None (Some 0) = ([], [JStr ''example.com'']) \<and>
   fetchData url (Inr structuredSource) (Some ''.'') None = ([], [JStr ''Example.COM'']) \<and>
   (validateDomain (JStr ''example.com'') \<longrightarrow>
      disposables (processDomains validateDomain
        (snd (fetchData url (Inr plainSource) None None)) False no_domains) = {JStr ''example.com''} \<and>
      disposables (processDomains validateDomain
        (snd (fetchData url (Inr delimitedSource) None (Some 0))) False no_domains) = {JStr ''example.com''} \<and>
      disposables (processDomains validateDomain
        (snd (fetchData url (Inr structuredSource) (Some ''.'') None)) False no_domains)
        \<noteq> {JStr ''example.com''})"
proof -
  have differs: "(if validateDomain (JStr ''Example.COM'') then {JStr ''Example.COM''} else {})
      \<noteq> {JStr ''example.com''}"
    using mixed_case_differs by (cases "validateDomain (JStr ''Example.COM'')") simp_all
  show ?thesis
    unfolding fetch_plainSource fetch_delimitedSource fetch_structuredSource snd_conv deny_single
    using differs by simp
qed

theorem structured_source_is_not_normalized_witness:
  "disposables (processDomains (\<lambda>d. True)
     (snd (fetchData ''u'' (Inr plainSource) None None)) False no_domains) = {JStr ''example.com''} \<and>
   disposables (processDomains (\<lambda>d. True)
     (snd (fetchData ''u'' (Inr structuredSource) (Some ''.'') None)) False no_domains)
     \<noteq> {JStr ''example.com''}"
proof -
  have accepted: "(\<lambda>d. True) (JStr ''example.com'')" by simp
  from structured_source_is_not_normalized [of "''u''" "\<lambda>d. True"] accepted
  show ?thesis by blast
qed

section \<open>The extraction loop\<close>

lemma extractLoop_blank:
  "successfulChanges st < maxChanges \<Longrightarrow>
     extractLoop fuel extractDomain validateDomain maxChanges blankPage st = None"
  by (induction fuel arbitrary: st) (simp_all add: blankPage_def trim_def Let_def)

lemma extractLoop_rejecting:
  "successfulChanges st < maxChanges \<Longrightarrow>
     extractLoop fuel extractDomain (\<lambda>d. False) maxChanges scenarioPage st = None"
proof (induction fuel arbitrary: st)
  case 0
  then show ?case by simp
next
  case (Suc fuel)
  have g: "generate_ok (scenarioPage (passes st))" by (simp add: scenarioPage_def)
  show ?case
    using Suc.prems g
    by (auto simp: Let_def processEmailDomain_def Suc.IH split: option.splits sum.splits)
qed

text \<open>
  C7. The loop counts successful changes only. On a page whose address display stays
  empty, and on a page none of whose addresses passes the validator, no number of passes
  is enough: the loop does not return, and neither does the session built on it.
\<close>

theorem extractLoop_may_never_return:
  "extractDomainsFromPage fuel extractDomain validateDomain MAX_EMAIL_CHANGES True blankPage = None \<and>
   extractDomainsFromPage fuel extractDomain (\<lambda>d. False) MAX_EMAIL_CHANGES True scenarioPage = None \<and>
   scrapeWithBrowser fuel extractDomain validateDomain (\<lambda>attempt. Navigated True blankPage) = None"
proof -
  have a: "extractDomainsFromPage fuel extractDomain validateDomain MAX_EMAIL_CHANGES True blankPage = None"
    by (simp add: extractDomainsFromPage_def extractLoop_blank MAX_EMAIL_CHANGES_def)
  have b: "extractDomainsFromPage fuel extractDomain (\<lambda>d. False) MAX_EMAIL_CHANGES True scenarioPage = None"
    by (simp add: extractDomainsFromPage_def extractLoop_rejecting MAX_EMAIL_CHANGES_def)
  have c: "scrapeWithBrowser fuel extractDomain validateDomain (\<lambda>attempt. Navigated True blankPage) = None"
    unfolding scrapeWithBrowser_def
    by (subst scrapeAttempts.simps) (simp add: a MAX_RETRIES_def)
  show ?thesis using a b c by simp
qed


lemma extractLoop_done:
  "\<not> successfulChanges st < maxChanges \<Longrightarrow>
     extractLoop fuel extractDomain validateDomain maxChanges page st = Some st"
  by (cases fuel) simp_all

lemma trim_address: "trim ''kim@a.test'' = ''kim@a.test''" "trim ''kim@b.test'' = ''kim@b.test''"
  by code_simp+

lemma normalize_tests: "normalizeDomain ''a.test'' = ''a.test''" "normalizeDomain ''b.test'' = ''b.test''"
  by code_simp+

lemma scenario_reads:
  "getCurrentEmail (display (scenarioPage 0)) = Some ''kim@a.test''"
  "getCurrentEmail (display (scenarioPage 1)) = Some ''kim@b.test''"
  "getCurrentEmail (display (scenarioPage 2)) = Some ''kim@a.test''"
  "getCurrentEmail (display (scenarioPage (Suc 0))) = Some ''kim@b.test''"
  "getCurrentEmail (display (scenarioPage (Suc (Suc 0)))) = Some ''kim@a.test''"
  "generate_ok (scenarioPage i)"
  by (simp_all add: scenarioPage_def trim_address)

lemma extractLoop_pass:
  assumes "successfulChanges st < maxChanges"
    and "getCurrentEmail (display (page (passes st))) = Some emailText"
    and "processEmailDomain extractDomain validateDomain emailText = Some domain"
    and "domain \<noteq> []" and "generate_ok (page (passes st))"
  shows "extractLoop (Suc fuel) extractDomain validateDomain maxChanges page st =
     extractLoop fuel extractDomain validateDomain maxChanges page
       \<lparr>domains = insert domain (domains st), successfulChanges = successfulChanges st + 1,
         passes = passes st + 1\<rparr>"
  using assms by (cases st) (simp add: Let_def)

lemma scenario_run:
  assumes "extractDomain ''kim@a.test'' = Inr ''a.test''"
    and "extractDomain ''kim@b.test'' = Inr ''b.test''"
    and "validateDomain ''a.test''" and "validateDomain ''b.test''"
    and "3 \<le> fuel"
  shows "extractDomainsFromPage fuel extractDomain validateDomain 3 True scenarioPage =
     Some \<lparr>domains = {''a.test'', ''b.test''}, successfulChanges = 3, passes = 3\<rparr>"
proof -
  from assms(5) obtain f where fuel: "fuel = Suc (Suc (Suc f))"
    by (auto simp: numeral_3_eq_3 Suc_le_eq dest!: less_imp_Suc_add)
  have pa: "processEmailDomain extractDomain validateDomain ''kim@a.test'' = Some ''a.test''"
    using assms by (simp add: processEmailDomain_def normalize_tests)
  have pb: "processEmailDomain extractDomain validateDomain ''kim@b.test'' = Some ''b.test''"
    using assms by (simp add: processEmailDomain_def normalize_tests)
  let ?s0 = "\<lparr>domains = {}, successfulChanges = 0, passes = 0\<rparr>"
  let ?s1 = "\<lparr>domains = {''a.test''}, successfulChanges = 1, passes = 1\<rparr>"
  let ?s2 = "\<lparr>domains = {''b.test'', ''a.test''}, successfulChanges = 2, passes = 2\<rparr>"
  let ?s3 = "\<lparr>domains = {''a.test'', ''b.test'', ''a.test''}, successfulChanges = 3, passes = 3\<rparr>"
  have step1: "extractLoop (Suc (Suc (Suc f))) extractDomain validateDomain 3 scenarioPage ?s0 =
        extractLoop (Suc (Suc f)) extractDomain validateDomain 3 scenarioPage ?s1"
    using extractLoop_pass [where st = ?s0 and maxChanges = 3 and page = scenarioPage
        and emailText = "''kim@a.test''" and domain = "''a.test''" and fuel = "Suc (Suc f)"
        and extractDomain = extractDomain and validateDomain = validateDomain]
    by (simp del: extractLoop.simps add: scenario_reads pa numeral_2_eq_2 numeral_3_eq_3)
  have step2: "extractLoop (Suc (Suc f)) extractDomain validateDomain 3 scenarioPage ?s1 =
        extractLoop (Suc f) extractDomain validateDomain 3 scenarioPage ?s2"
    using extractLoop_pass [where st = ?s1 and maxChanges = 3 and page = scenarioPage
        and emailText = "''kim@b.test''" and domain = "''b.test''" and fuel = "Suc f"
        and extractDomain = extractDomain and validateDomain = validateDomain]
    by (simp del: extractLoop.simps add: scenario_reads pb numeral_2_eq_2 numeral_3_eq_3)
  have step3: "extractLoop (Suc f) extractDomain validateDomain 3 scenarioPage ?s2 =
        extractLoop f extractDomain validateDomain 3 scenarioPage ?s3"
    using extractLoop_pass [where st = ?s2 and maxChanges = 3 and page = scenarioPage
        and emailText = "''kim@a.test''" and domain = "''a.test''" and fuel = f
        and extractDomain = extractDomain and validateDomain = validateDomain]
    by (simp del: extractLoop.simps add: scenario_reads pa numeral_2_eq_2 numeral_3_eq_3)
  have step4: "extractLoop f extractDomain validateDomain 3 scenarioPage ?s3 = Some ?s3"
    by (rule extractLoop_done) simp
  have run: "extractLoop (Suc (Suc (Suc f))) extractDomain validateDomain 3 scenarioPage ?s0 = Some ?s3"
    by (rule trans [OF step1], rule trans [OF step2], rule trans [OF step3], rule step4)
  have set_eq: "{''a.test'', ''b.test'', ''a.test''} = {''a.test'', ''b.test''}" by (simp add: insert_commute)
  show ?thesis
    unfolding fuel extractDomainsFromPage_def Let_def using run set_eq by simp
qed


text \<open>
  C2, as amended. In the scenario (addresses at \<open>a.test\<close>, \<open>b.test\<close>, \<open>a.test\<close>,
  \<open>c.test\<close>, maximum 3) the loop ends after exactly 3 passes, each of them counted as a
  successful change, the repeated \<open>a.test\<close> included; the set at the exit is
  \<open>a.test\<close>, \<open>b.test\<close>, of size 2, and the number of passes does not exceed the
  maximum.
\<close>

theorem scenario_counts_changes:
  "extractDomain ''kim@a.test'' = Inr ''a.test'' \<Longrightarrow>
   extractDomain ''kim@b.test'' = Inr ''b.test'' \<Longrightarrow>
   validateDomain ''a.test'' \<Longrightarrow> validateDomain ''b.test'' \<Longrightarrow> 3 \<le> fuel \<Longrightarrow>
     extractDomainsFromPage fuel extractDomain validateDomain 3 True scenarioPage =
       Some \<lparr>domains = {''a.test'', ''b.test''}, successfulChanges = 3, passes = 3\<rparr> \<and>
     card {''a.test'', ''b.test''} = 2"
  using scenario_run [of extractDomain validateDomain fuel] by simp

theorem scenario_counts_changes_witness:
  "afterAt ''kim@a.test'' = Inr ''a.test'' \<and> afterAt ''kim@b.test'' = Inr ''b.test'' \<and>
   (3::nat) \<le> 3 \<and>
   extractDomainsFromPage 3 afterAt (\<lambda>d. True) 3 True scenarioPage =
     Some \<lparr>domains = {''a.test'', ''b.test''}, successfulChanges = 3, passes = 3\<rparr>"
proof -
  have a: "afterAt ''kim@a.test'' = Inr ''a.test''" and b: "afterAt ''kim@b.test'' = Inr ''b.test''"
    by (simp_all add: afterAt_def)
  have t: "(\<lambda>d. True) ''a.test''" "(\<lambda>d. True) ''b.test''" by simp_all
  have le: "(3::nat) \<le> 3" by simp
  show ?thesis
    using a b scenario_counts_changes [OF a b t le] by simp
qed


lemma afterAt_addresses:
  "afterAt ''kim@a.test'' = Inr ''a.test''" "afterAt ''kim@b.test'' = Inr ''b.test''"
  by (simp_all add: afterAt_def)

text \<open>
  C2, as stated, fails: the run of the scenario does not end with the three domains
  \<open>a.test\<close>, \<open>b.test\<close>, \<open>c.test\<close>.
\<close>

theorem scenario_misses_third_domain:
  "extractDomainsFromPage 3 afterAt (\<lambda>d. True) 3 True scenarioPage =
     Some \<lparr>domains = {''a.test'', ''b.test''}, successfulChanges = 3, passes = 3\<rparr> \<and>
   \<not> (\<exists>st. extractDomainsFromPage 3 afterAt (\<lambda>d. True) 3 True scenarioPage = Some st \<and>
          domains st = {''a.test'', ''b.test'', ''c.test''} \<and> card (domains st) = 3)"
proof -
  have r: "extractDomainsFromPage 3 afterAt (\<lambda>d. True) 3 True scenarioPage =
     Some \<lparr>domains = {''a.test'', ''b.test''}, successfulChanges = 3, passes = 3\<rparr>"
    using scenario_run [of afterAt "\<lambda>d. True" 3] afterAt_addresses by simp
  have absent: "''c.test'' \<notin> {''a.test'', ''b.test''}"
    by simp
  have present: "''c.test'' \<in> {''a.test'', ''b.test'', ''c.test''}"
    by (rule insertI2, rule insertI2, rule insertI1)
  have "\<not> (\<exists>st. extractDomainsFromPage 3 afterAt (\<lambda>d. True) 3 True scenarioPage = Some st \<and>
          domains st = {''a.test'', ''b.test'', ''c.test''} \<and> card (domains st) = 3)"
  proof
    assume "\<exists>st. extractDomainsFromPage 3 afterAt (\<lambda>d. True) 3 True scenarioPage = Some st \<and>
          domains st = {''a.test'', ''b.test'', ''c.test''} \<and> card (domains st) = 3"
    then obtain st where st: "extractDomainsFromPage 3 afterAt (\<lambda>d. True) 3 True scenarioPage = Some st"
      and all: "domains st = {''a.test'', ''b.test'', ''c.test''}" by blast
    from st r have "st = \<lparr>domains = {''a.test'', ''b.test''}, successfulChanges = 3, passes = 3\<rparr>"
      by (simp only: option.inject)
    then have "domains st = {''a.test'', ''b.test''}"
      by (simp only: extraction.simps)
    with all have "{''a.test'', ''b.test''} = {''a.test'', ''b.test'', ''c.test''}"
      by (simp only:)
    with present have "''c.test'' \<in> {''a.test'', ''b.test''}"
      by (simp only:)
    with absent show False by (rule notE)
  qed
  with r show ?thesis by (rule conjI)
qed

section \<open>The retry controller\<close>

lemma scrapeAttempts_launch_null:
  "attempt \<le> MAX_RETRIES \<Longrightarrow> env attempt = LaunchNull \<Longrightarrow>
     scrapeAttempts fuel ed vd env attempt lastError tr =
       scrapeAttempts fuel ed vd env (attempt + 1) (Some ''Browser failed to launch'') (tr @ [Launch])"
  by (subst scrapeAttempts.simps) simp

lemma scrapeAttempts_navigation_null:
  "attempt \<le> MAX_RETRIES \<Longrightarrow> env attempt = NavigationNull \<Longrightarrow>
     scrapeAttempts fuel ed vd env attempt lastError tr =
       scrapeAttempts fuel ed vd env (attempt + 1) (Some ''Page navigation failed'')
         (tr @ attempt_failed attempt ''Page navigation failed'')"
  by (subst scrapeAttempts.simps) simp

lemma scrapeAttempts_exhausted:
  "\<not> attempt \<le> MAX_RETRIES \<Longrightarrow>
     scrapeAttempts fuel ed vd env attempt (Some msg) tr = Some (Inl msg, tr)"
  by (subst scrapeAttempts.simps) simp

lemma scrapeAttempts_navigated:
  "attempt \<le> MAX_RETRIES \<Longrightarrow> env attempt = Navigated init_ok page \<Longrightarrow>
     extractDomainsFromPage fuel ed vd MAX_EMAIL_CHANGES init_ok page = Some st \<Longrightarrow>
     scrapeAttempts fuel ed vd env attempt lastError tr = Some (Inr (domains st), tr @ [Launch, Close])"
  by (subst scrapeAttempts.simps) simp

lemma launch_null_session:
  "scrapeWithBrowser fuel ed vd (\<lambda>attempt. LaunchNull) =
     Some (Inl ''Browser failed to launch'', [Launch, Launch, Launch])"
  unfolding scrapeWithBrowser_def
  by (simp add: scrapeAttempts_launch_null scrapeAttempts_exhausted MAX_RETRIES_def
      del: scrapeAttempts.simps)

lemma navigation_null_session:
  "scrapeWithBrowser fuel ed vd (\<lambda>attempt. NavigationNull) =
     Some (Inl ''Page navigation failed'',
       [Launch, Warn 1 ''Page navigation failed'', Delay 2000, Close,
        Launch, Warn 2 ''Page navigation failed'', Delay 4000, Close,
        Launch, Warn 3 ''Page navigation failed'', Close])"
  unfolding scrapeWithBrowser_def
  by (simp add: scrapeAttempts_navigation_null scrapeAttempts_exhausted attempt_failed_def
      MAX_RETRIES_def RETRY_DELAY_MS_def del: scrapeAttempts.simps)

lemma launch_rejects_session:
  "scrapeWithBrowser fuel ed vd (\<lambda>attempt. LaunchRejects msg) = Some (Inl msg, [Launch])"
  unfolding scrapeWithBrowser_def
  by (subst scrapeAttempts.simps) (simp add: MAX_RETRIES_def)

lemma full_extraction:
  "extractDomainsFromPage 15 afterAt (\<lambda>d. True) MAX_EMAIL_CHANGES True scenarioPage =
     Some \<lparr>domains = {''a.test'', ''b.test'', ''c.test''}, successfulChanges = 15, passes = 15\<rparr>"
  by code_simp


lemma reached_session:
  "scrapeWithBrowser 15 afterAt (\<lambda>d. True) (\<lambda>attempt. Navigated True scenarioPage) =
     Some (Inr {''a.test'', ''b.test'', ''c.test''}, [Launch, Close])"
  unfolding scrapeWithBrowser_def
  using scrapeAttempts_navigated [where attempt = 1 and env = "\<lambda>attempt. Navigated True scenarioPage"
      and tr = "[]" and lastError = None, OF _ _ full_extraction]
  by (simp add: MAX_RETRIES_def del: scrapeAttempts.simps)

lemma oneEngineDown_sessions:
  "oneEngineDown ''chromium'' = (\<lambda>attempt. LaunchNull)"
  "oneEngineDown ''firefox'' = (\<lambda>attempt. Navigated True scenarioPage)"
  by (simp_all add: oneEngineDown_def fun_eq_iff)

lemma one_engine_down_run:
  "scrapeTempMailDomains 15 afterAt (\<lambda>d. True) (\<lambda>found. True) [''chromium'', ''firefox'']
      oneEngineDown =
     Some (Completed \<lparr>gathered = {''a.test'', ''b.test'', ''c.test''}, successCount = 1,
                        failures = [''Browser failed to launch'']\<rparr>)"
  by (simp add: scrapeTempMailDomains_def oneEngineDown_sessions launch_null_session reached_session)

text \<open>
  C8. A launch that returns \<open>null\<close> is retried up to the ceiling of 3 attempts, but
  with no delay between the attempts; a failed navigation is retried with delays of 2000
  and 4000 ms; a launch that rejects is not retried. When the attempts are used up the
  last error is thrown, and the caller completes with the domains of the other engine.
\<close>

theorem launch_failure_is_retried_without_delay:
  "scrapeWithBrowser fuel extractDomain validateDomain (\<lambda>attempt. LaunchNull) =
     Some (Inl ''Browser failed to launch'', [Launch, Launch, Launch]) \<and>
   scrapeWithBrowser fuel extractDomain validateDomain (\<lambda>attempt. NavigationNull) =
     Some (Inl ''Page navigation failed'',
       [Launch, Warn 1 ''Page navigation failed'', Delay 2000, Close,
        Launch, Warn 2 ''Page navigation failed'', Delay 4000, Close,
        Launch, Warn 3 ''Page navigation failed'', Close]) \<and>
   scrapeWithBrowser fuel extractDomain validateDomain (\<lambda>attempt. LaunchRejects msg) =
     Some (Inl msg, [Launch]) \<and>
   scrapeTempMailDomains 15 afterAt (\<lambda>d. True) (\<lambda>found. True) [''chromium'', ''firefox'']
      oneEngineDown =
     Some (Completed \<lparr>gathered = {''a.test'', ''b.test'', ''c.test''}, successCount = 1,
                        failures = [''Browser failed to launch'']\<rparr>)"
  using launch_null_session navigation_null_session launch_rejects_session one_engine_down_run
  by blast

section \<open>More on the three formats and on the veto\<close>

lemma split_no_separator: "sep \<notin> set d \<Longrightarrow> split sep d = [d]"
  by (induction d) auto

lemma split_at_separator: "sep \<notin> set d \<Longrightarrow> split sep (d @ sep # rest) = d # split sep rest"
  by (induction d) auto

lemma split_joinLines:
  "ds \<noteq> [] \<Longrightarrow> list_all (\<lambda>d. LF \<notin> set d) ds \<Longrightarrow> split LF (joinLines ds) = ds"
proof (induction ds rule: joinLines.induct)
  case 1
  then show ?case by simp
next
  case (2 d)
  then show ?case by (simp add: split_no_separator)
next
  case (3 d e ds)
  then show ?case by (simp add: split_at_separator)
qed

lemma plain_line_normalized:
  "list_all normalized_entry ds \<Longrightarrow>
     filter keep_line (map (\<lambda>line. toLowerCase (trim line)) ds) = ds"
  by (induction ds) (auto simp: normalized_entry_def keep_line_def)

lemma csv_cell_normalized: "normalized_entry d \<Longrightarrow> csv_cell 0 d = d"
proof -
  assume n: "normalized_entry d"
  then have "split (CHR '','') d = [d]"
    by (simp add: normalized_entry_def split_no_separator)
  moreover from n have "filter (\<lambda>c. c \<noteq> CHR 0x22) d = d"
    by (auto simp: normalized_entry_def filter_id_conv)
  ultimately show ?thesis
    using n by (simp add: csv_cell_def at_index_def normalized_entry_def)
qed

lemma csv_line_normalized:
  "list_all normalized_entry ds \<Longrightarrow> filter keep_line (map (csv_cell 0) ds) = ds"
  by (induction ds) (auto simp: csv_cell_normalized normalized_entry_def keep_line_def)

lemma empty_body_lines:
  "filter keep_line (map (\<lambda>line. toLowerCase (trim line)) (split LF [])) = []"
  "filter keep_line (map (csv_cell 0) (split LF [])) = []"
  by (simp_all add: keep_line_def trim_def toLowerCase_def csv_cell_def at_index_def)

lemma lines_of_normalized:
  assumes "list_all normalized_entry ds"
  shows "filter keep_line (map (\<lambda>line. toLowerCase (trim line)) (split LF (joinLines ds))) = ds"
    and "filter keep_line (map (csv_cell 0) (split LF (joinLines ds))) = ds"
proof -
  have nl: "list_all (\<lambda>d. LF \<notin> set d) ds"
    using assms by (induction ds) (auto simp: normalized_entry_def)
  show "filter keep_line (map (\<lambda>line. toLowerCase (trim line)) (split LF (joinLines ds))) = ds"
  proof (cases "ds = []")
    case True
    then show ?thesis using empty_body_lines(1) by simp
  next
    case False
    then show ?thesis using assms nl by (simp add: split_joinLines plain_line_normalized)
  qed
  show "filter keep_line (map (csv_cell 0) (split LF (joinLines ds))) = ds"
  proof (cases "ds = []")
    case True
    then show ?thesis using empty_body_lines(2) by simp
  next
    case False
    then show ?thesis using assms nl by (simp add: split_joinLines csv_line_normalized)
  qed
qed

text \<open>
  X1. On entries that are normalized already the three paths of \<open>fetchData\<close> agree: a
  text body with one entry per line, read as a plain list and as a delimited list with
  column 0, and a JSON array of the same entries read with the key \<open>.\<close>, all return
  the entries as they are.
\<close>

theorem format_parity_on_normalized_entries:
  "list_all normalized_entry ds \<Longrightarrow>
   ok textResponse \<Longrightarrow> text_result textResponse = Inr (joinLines ds) \<Longrightarrow>
   ok jsonResponse \<Longrightarrow> json_result jsonResponse = Inr (JArr (map JStr ds)) \<Longrightarrow>
     fetchData url (Inr textResponse) None None = ([], map JStr ds) \<and>
     fetchData url (Inr textResponse) None (Some 0) = ([], map JStr ds) \<and>
     fetchData url (Inr jsonResponse) (Some ''.'') None = ([], map JStr ds)"
  by (simp add: fetchData_def fetchData_try_def lines_of_normalized)

theorem format_parity_on_normalized_entries_witness:
  "list_all normalized_entry [''example.com'', ''evil.tk''] \<and>
   fetchData ''u'' (Inr twoDomainsText) None None = ([], [JStr ''example.com'', JStr ''evil.tk'']) \<and>
   fetchData ''u'' (Inr twoDomainsText) None (Some 0) = ([], [JStr ''example.com'', JStr ''evil.tk'']) \<and>
   fetchData ''u'' (Inr twoDomainsJson) (Some ''.'') None = ([], [JStr ''example.com'', JStr ''evil.tk''])"
proof -
  have n: "list_all normalized_entry [''example.com'', ''evil.tk'']"
    by code_simp
  have t: "ok twoDomainsText" "text_result twoDomainsText = Inr (joinLines [''example.com'', ''evil.tk''])"
    by (simp_all add: twoDomainsText_def)
  have j: "ok twoDomainsJson"
    "json_result twoDomainsJson = Inr (JArr (map JStr [''example.com'', ''evil.tk'']))"
    by (simp_all add: twoDomainsJson_def)
  show ?thesis
    using n format_parity_on_normalized_entries [OF n t j, of "''u''"] by simp
qed

lemma nxt_step:
  "apply_event limit tasks e s = Some s' \<Longrightarrow> nxt s \<le> length tasks \<Longrightarrow> nxt s' \<le> length tasks"
  by (cases e) (auto simp: apply_event_def Let_def split: if_splits)

lemma shared_step:
  assumes "apply_event limit tasks e s = Some s'" and "nxt s \<le> length tasks"
    and "\<forall>t \<in> set tasks. \<forall>sh. P sh \<longrightarrow> P (snd t sh)" and "P (shared s)"
  shows "P (shared s')"
proof (cases e)
  case (Settle k)
  with assms(1) have g: "k \<in> set (unresolved s)"
    by (auto simp: apply_event_def split: if_splits)
  with assms(2) have "k < length tasks"
    using unresolved_called[OF g] by simp
  then have "tasks ! k \<in> set tasks" by simp
  with assms(3,4) have "P (snd (tasks ! k) (shared s))" by blast
  moreover from assms(1) Settle g have "shared s' = snd (tasks ! k) (shared s)"
    by (auto simp: apply_event_def split: if_splits)
  ultimately show ?thesis by simp
next
  case Call
  with assms show ?thesis by (auto simp: apply_event_def Let_def split: if_splits)
next
  case Exit
  with assms show ?thesis by (auto simp: apply_event_def split: if_splits)
next
  case Resume
  with assms show ?thesis by (auto simp: apply_event_def split: if_splits)
next
  case Return
  with assms show ?thesis by (auto simp: apply_event_def split: if_splits)
qed

lemma shared_exec:
  assumes "\<forall>t \<in> set tasks. \<forall>sh. P sh \<longrightarrow> P (snd t sh)"
  shows "exec limit tasks es s = Some s' \<Longrightarrow> nxt s \<le> length tasks \<Longrightarrow> P (shared s) \<Longrightarrow>
     P (shared s')"
proof (induction es arbitrary: s)
  case Nil
  then show ?case by simp
next
  case (Cons e es)
  from Cons.prems(1) obtain s1 where s1: "apply_event limit tasks e s = Some s1"
    and rest: "exec limit tasks es s1 = Some s'"
    by (auto split: option.splits)
  from nxt_step[OF s1 Cons.prems(2)] have n: "nxt s1 \<le> length tasks" .
  from shared_step[OF s1 Cons.prems(2) assms Cons.prems(3)] have "P (shared s1)" .
  from Cons.IH[OF rest n this] show ?case .
qed

lemma fetchTasks_effects:
  "t \<in> set (fetchTasks vd a b c d) \<Longrightarrow> \<exists>ds isAllow. snd t = processDomains vd ds isAllow"
  by (auto simp: fetchTasks_def fetchTask_def Let_def) blast+

lemma processDomains_keeps_veto:
  assumes "x \<in> allowlistSet sh" and "x \<notin> disposables sh"
  shows "x \<in> allowlistSet (processDomains vd ds isAllow sh) \<and>
         x \<notin> disposables (processDomains vd ds isAllow sh)"
  using assms by (cases isAllow) (auto simp: processDomains_allow processDomains_deny)

text \<open>
  X2. The veto does hold for the local allowlist file, which is loaded before any task is
  called: in every state an execution of the fetch tasks reaches, an entry of the file is
  in the allow set and not in the disposable set.
\<close>

theorem local_allowlist_is_never_published_disposable:
  "exec limit (fetchTasks validateDomain allowlist_txt blacklists_txt blacklists_json blacklists_csv)
      es (main_start (Some content)) = Some s \<Longrightarrow>
   line \<in> set (allowlistLines content) \<Longrightarrow>
     JStr line \<in> published_allowlist s \<and> JStr line \<notin> published_disposables s"
proof -
  let ?tasks = "fetchTasks validateDomain allowlist_txt blacklists_txt blacklists_json blacklists_csv"
  let ?P = "\<lambda>sh :: json collections. JStr line \<in> allowlistSet sh \<and> JStr line \<notin> disposables sh"
  assume run: "exec limit ?tasks es (main_start (Some content)) = Some s"
    and line: "line \<in> set (allowlistLines content)"
  have step: "\<forall>t \<in> set ?tasks. \<forall>sh. ?P sh \<longrightarrow> ?P (snd t sh)"
  proof (intro ballI allI impI)
    fix t sh assume t: "t \<in> set ?tasks" and p: "?P sh"
    from fetchTasks_effects[OF t] obtain ds isAllow
      where "snd t = processDomains validateDomain ds isAllow" by blast
    with p processDomains_keeps_veto show "?P (snd t sh)" by metis
  qed
  have init: "?P (shared (main_start (Some content)))"
    using line by (simp add: main_start_def start_def loadLocalAllowlist_def fold_add_allowlist
        no_domains_def)
  have "?P (shared s)"
    using shared_exec[where P = ?P, OF step run _ init]
    by (simp add: main_start_def start_def)
  then show ?thesis
    by (simp add: published_allowlist_def published_disposables_def)
qed

lemma allowlistLines_example: "''example.com'' \<in> set (allowlistLines ''example.com'')"
  by code_simp

lemma local_veto_run:
  "exec MAX_CONCURRENT_REQUESTS
      (fetchTasks (\<lambda>d. True) [(''allow.txt'', Inr allowSource)] [(''deny.txt'', Inr denySource)] [] [])
      [Call, Call, Exit, Settle 1, Settle 0, Return] (main_start (Some ''example.com'')) =
     Some \<lparr>pc = Returned, nxt = 2, executing = [], awaited = [0, 1], results = [2, 1],
       settled = {0, 1},
       shared = processDomains (\<lambda>d. True) [JStr ''example.com''] True
                  (processDomains (\<lambda>d. True) [JStr ''example.com'', JStr ''evil.tk''] False
                    (loadLocalAllowlist (Some ''example.com'') no_domains))\<rparr>"
  by (simp add: fetchTasks_def fetchTask_def fetch_allowSource fetch_denySource
      MAX_CONCURRENT_REQUESTS_def main_start_def apply_event_def start_def splice1_def
      unresolved_def Let_def insert_commute)

theorem local_allowlist_is_never_published_disposable_witness:
  "''example.com'' \<in> set (allowlistLines ''example.com'') \<and>
   (\<exists>s. exec MAX_CONCURRENT_REQUESTS
          (fetchTasks (\<lambda>d. True) [(''allow.txt'', Inr allowSource)] [(''deny.txt'', Inr denySource)] [] [])
          [Call, Call, Exit, Settle 1, Settle 0, Return] (main_start (Some ''example.com'')) = Some s \<and>
        JStr ''example.com'' \<in> published_allowlist s \<and>
        JStr ''example.com'' \<notin> published_disposables s)"
  using local_allowlist_is_never_published_disposable [OF local_veto_run allowlistLines_example]
    local_veto_run allowlistLines_example
  by blast

end
